theory Spec2Isabelle
  imports Main "HOL-Library.Multiset"
begin

section \<open>Data model of \<^verbatim>\<open>A-ancestor-visitor.cpp\<close>\<close>

text \<open>
  A vertex is a C++ \<^verbatim>\<open>int\<close>; the timer and the timestamps are \<^verbatim>\<open>int\<close> as well.
  They are modelled by \<^typ>\<open>int\<close>. Signed overflow is undefined behaviour in the source.
  The timer is the one counter that grows beyond the input: it counts up to twice the
  vertex count, and the model makes its overflow the error \<open>SignedOverflow\<close>. The
  decrements of \<^verbatim>\<open>main\<close> apply to input values, which index a vector next; a value low
  enough to overflow there is out of range for the vector in the model.
  Indexing a \<^verbatim>\<open>std::vector\<close> outside its bounds is undefined behaviour as well; the model
  makes it the error \<open>OutOfRange\<close>. The recursion of \<^verbatim>\<open>DepthFirstSearchVisit\<close> uses the call
  stack; the model gives it a budget of nested calls and makes running out of it the
  error \<open>StackExhausted\<close>.
\<close>

type_synonym Vertex = int

record Edge =
  source :: Vertex
  destination :: Vertex

datatype Color = kWhite | kGray | kBlack

datatype error = OutOfRange | StackExhausted | SignedOverflow

definition and_then :: "error + 'a \<Rightarrow> ('a \<Rightarrow> error + 'b) \<Rightarrow> error + 'b" where
  "and_then m f = (case m of Inl e \<Rightarrow> Inl e | Inr x \<Rightarrow> f x)"

definition vec_get :: "'a list \<Rightarrow> int \<Rightarrow> error + 'a" where
  "vec_get xs i = (if 0 \<le> i \<and> i < int (length xs) then Inr (xs ! nat i) else Inl OutOfRange)"

definition vec_set :: "'a list \<Rightarrow> int \<Rightarrow> 'a \<Rightarrow> error + 'a list" where
  "vec_set xs i x = (if 0 \<le> i \<and> i < int (length xs) then Inr (xs[nat i := x]) else Inl OutOfRange)"

text \<open>
  \<^verbatim>\<open>x++\<close> on an \<^verbatim>\<open>int\<close>: the value of the expression and the new value of \<open>x\<close>.
\<close>

definition INT_MAX :: int where
  "INT_MAX = 2147483647"

definition post_increment :: "int \<Rightarrow> error + int \<times> int" where
  "post_increment x = (if x < INT_MAX then Inr (x, x + 1) else Inl SignedOverflow)"

text \<open>A range-based \<^verbatim>\<open>for\<close> loop whose body may fail.\<close>

fun for_each :: "('st \<Rightarrow> 'a \<Rightarrow> error + 'st) \<Rightarrow> 'st \<Rightarrow> 'a list \<Rightarrow> error + 'st" where
  "for_each body st [] = Inr st"
| "for_each body st (x # xs) = and_then (body st x) (\<lambda>st'. for_each body st' xs)"

subsection \<open>Graph\<close>

record Graph =
  vertices :: "Vertex list"
  outgoing_edges :: "Edge list list"

definition Graph_new :: "nat \<Rightarrow> Graph" where
  "Graph_new vertex_count =
     \<lparr>vertices = map int [0..<vertex_count], outgoing_edges = replicate vertex_count []\<rparr>"

definition AddEdge :: "Graph \<Rightarrow> Edge \<Rightarrow> error + Graph" where
  "AddEdge graph edge =
     and_then (vec_get (outgoing_edges graph) (source edge)) (\<lambda>es.
     and_then (vec_set (outgoing_edges graph) (source edge) (es @ [edge])) (\<lambda>oe.
     Inr (graph\<lparr>outgoing_edges := oe\<rparr>)))"

definition GetVertices :: "Graph \<Rightarrow> Vertex list" where
  "GetVertices graph = vertices graph"

definition GetOutgoingEdges :: "Graph \<Rightarrow> Vertex \<Rightarrow> error + Edge list" where
  "GetOutgoingEdges graph vertex = vec_get (outgoing_edges graph) vertex"

subsection \<open>Colormap\<close>

text \<open>
  The traversal is a template over the class of its colormap: it constructs the colormap
  from the vertex count and then only calls \<^verbatim>\<open>GetColor\<close> and \<^verbatim>\<open>SetColor\<close>. A colormap class
  is the table of these operations over the colormap's own state. \<^verbatim>\<open>Colormap\<close> is the class
  the driver instantiates the template with; its state is the vector \<^verbatim>\<open>colormap_\<close>.
\<close>

record 'c IColormap =
  construct :: "nat \<Rightarrow> 'c"
  GetColor :: "'c \<Rightarrow> Vertex \<Rightarrow> error + Color"
  SetColor :: "'c \<Rightarrow> Vertex \<Rightarrow> Color \<Rightarrow> error + 'c"

type_synonym Colormap = "Color list"

definition Colormap_new :: "nat \<Rightarrow> Colormap" where
  "Colormap_new vertex_count = replicate vertex_count kWhite"

definition Colormap_GetColor :: "Colormap \<Rightarrow> Vertex \<Rightarrow> error + Color" where
  "Colormap_GetColor colormap vertex = vec_get colormap vertex"

definition Colormap_SetColor :: "Colormap \<Rightarrow> Vertex \<Rightarrow> Color \<Rightarrow> error + Colormap" where
  "Colormap_SetColor colormap vertex color = vec_set colormap vertex color"

definition Colormap_class :: "Colormap IColormap" where
  "Colormap_class =
     \<lparr>construct = Colormap_new, GetColor = Colormap_GetColor, SetColor = Colormap_SetColor\<rparr>"

subsection \<open>Visitors\<close>

text \<open>
  \<^verbatim>\<open>IDFSVisitor\<close> is a table of nine callbacks over the visitor's own state; every default
  is a no-op.
\<close>

record 's IDFSVisitor =
  InitializeVertex :: "Vertex \<Rightarrow> 's \<Rightarrow> error + 's"
  DiscoverVertex :: "Vertex \<Rightarrow> 's \<Rightarrow> error + 's"
  StartVertex :: "Vertex \<Rightarrow> 's \<Rightarrow> error + 's"
  ExamineEdge :: "Edge \<Rightarrow> 's \<Rightarrow> error + 's"
  TreeEdge :: "Edge \<Rightarrow> 's \<Rightarrow> error + 's"
  BackEdge :: "Edge \<Rightarrow> 's \<Rightarrow> error + 's"
  ForwardOrCrossEdge :: "Edge \<Rightarrow> 's \<Rightarrow> error + 's"
  FinishEdge :: "Edge \<Rightarrow> 's \<Rightarrow> error + 's"
  FinishVertex :: "Vertex \<Rightarrow> 's \<Rightarrow> error + 's"

definition IDFSVisitor_default :: "'s IDFSVisitor" where
  "IDFSVisitor_default =
     \<lparr>InitializeVertex = (\<lambda>_ s. Inr s), DiscoverVertex = (\<lambda>_ s. Inr s),
      StartVertex = (\<lambda>_ s. Inr s), ExamineEdge = (\<lambda>_ s. Inr s), TreeEdge = (\<lambda>_ s. Inr s),
      BackEdge = (\<lambda>_ s. Inr s), ForwardOrCrossEdge = (\<lambda>_ s. Inr s),
      FinishEdge = (\<lambda>_ s. Inr s), FinishVertex = (\<lambda>_ s. Inr s)\<rparr>"

record TimeDFSVisitor =
  timer :: int
  time_in :: "int list"
  time_out :: "int list"

definition TimeDFSVisitor_new :: "nat \<Rightarrow> TimeDFSVisitor" where
  "TimeDFSVisitor_new vertex_count =
     \<lparr>timer = 0, time_in = replicate vertex_count 0, time_out = replicate vertex_count 0\<rparr>"

definition Time_DiscoverVertex :: "Vertex \<Rightarrow> TimeDFSVisitor \<Rightarrow> error + TimeDFSVisitor" where
  "Time_DiscoverVertex vertex s =
     and_then (post_increment (timer s)) (\<lambda>(t, timer').
     and_then (vec_set (time_in s) vertex t) (\<lambda>ti.
     Inr (s\<lparr>timer := timer', time_in := ti\<rparr>)))"

definition Time_FinishVertex :: "Vertex \<Rightarrow> TimeDFSVisitor \<Rightarrow> error + TimeDFSVisitor" where
  "Time_FinishVertex vertex s =
     and_then (post_increment (timer s)) (\<lambda>(t, timer').
     and_then (vec_set (time_out s) vertex t) (\<lambda>to.
     Inr (s\<lparr>timer := timer', time_out := to\<rparr>)))"

definition time_dfs_visitor :: "TimeDFSVisitor IDFSVisitor" where
  "time_dfs_visitor =
     IDFSVisitor_default\<lparr>DiscoverVertex := Time_DiscoverVertex, FinishVertex := Time_FinishVertex\<rparr>"

section \<open>The traversal engine\<close>

text \<open>The body of the loop over the outgoing edges; \<open>visit\<close> is the recursive call.\<close>

definition examine_edge ::
  "'c IColormap \<Rightarrow> ('c \<times> 's \<Rightarrow> Vertex \<Rightarrow> error + 'c \<times> 's) \<Rightarrow> 's IDFSVisitor \<Rightarrow>
   'c \<times> 's \<Rightarrow> Edge \<Rightarrow> error + 'c \<times> 's" where
  "examine_edge Colormap visit visitor st outgoing_edge =
     (case st of (colormap, vs) \<Rightarrow>
      and_then (ExamineEdge visitor outgoing_edge vs) (\<lambda>vs1.
      and_then (GetColor Colormap colormap (destination outgoing_edge)) (\<lambda>c.
      and_then
        (if c = kWhite then
           and_then (visit (colormap, vs1) (destination outgoing_edge)) (\<lambda>(cm2, vs2).
           and_then (TreeEdge visitor outgoing_edge vs2) (\<lambda>vs3. Inr (cm2, vs3)))
         else
           and_then (GetColor Colormap colormap (destination outgoing_edge)) (\<lambda>c2.
           if c2 = kGray then
             and_then (BackEdge visitor outgoing_edge vs1) (\<lambda>vs3. Inr (colormap, vs3))
           else
             and_then (ForwardOrCrossEdge visitor outgoing_edge vs1) (\<lambda>vs3. Inr (colormap, vs3))))
        (\<lambda>(cm2, vs3).
      and_then (FinishEdge visitor outgoing_edge vs3) (\<lambda>vs4. Inr (cm2, vs4))))))"

fun DepthFirstSearchVisit ::
  "'c IColormap \<Rightarrow> nat \<Rightarrow> Graph \<Rightarrow> 's IDFSVisitor \<Rightarrow> 'c \<times> 's \<Rightarrow> Vertex \<Rightarrow> error + 'c \<times> 's" where
  "DepthFirstSearchVisit Colormap 0 graph visitor st vertex = Inl StackExhausted"
| "DepthFirstSearchVisit Colormap (Suc depth) graph visitor st vertex =
     (case st of (colormap, vs) \<Rightarrow>
      and_then (SetColor Colormap colormap vertex kGray) (\<lambda>cm1.
      and_then (DiscoverVertex visitor vertex vs) (\<lambda>vs1.
      and_then (GetOutgoingEdges graph vertex) (\<lambda>edges.
      and_then (for_each
                 (examine_edge Colormap
                    (\<lambda>st' v. DepthFirstSearchVisit Colormap depth graph visitor st' v) visitor)
                 (cm1, vs1) edges) (\<lambda>(cm2, vs2).
      and_then (SetColor Colormap cm2 vertex kBlack) (\<lambda>cm3.
      and_then (FinishVertex visitor vertex vs2) (\<lambda>vs3. Inr (cm3, vs3))))))))"

definition initialize_step ::
  "'c IColormap \<Rightarrow> 's IDFSVisitor \<Rightarrow> 'c \<times> 's \<Rightarrow> Vertex \<Rightarrow> error + 'c \<times> 's" where
  "initialize_step Colormap visitor st vertex =
     (case st of (colormap, vs) \<Rightarrow>
      and_then (SetColor Colormap colormap vertex kWhite) (\<lambda>cm1.
      and_then (InitializeVertex visitor vertex vs) (\<lambda>vs1. Inr (cm1, vs1))))"

definition sweep_step ::
  "'c IColormap \<Rightarrow> nat \<Rightarrow> Graph \<Rightarrow> 's IDFSVisitor \<Rightarrow> 'c \<times> 's \<Rightarrow> Vertex \<Rightarrow> error + 'c \<times> 's" where
  "sweep_step Colormap depth graph visitor st vertex =
     (case st of (colormap, vs) \<Rightarrow>
      and_then (GetColor Colormap colormap vertex) (\<lambda>c.
      if c = kWhite then
        and_then (StartVertex visitor vertex vs) (\<lambda>vs1.
        DepthFirstSearchVisit Colormap depth graph visitor (colormap, vs1) vertex)
      else Inr (colormap, vs)))"

text \<open>
  \<^verbatim>\<open>DepthFirstSearch\<close> with its local colormap returned next to the visitor, so that
  the final colours can be stated.
\<close>

definition DepthFirstSearch_run ::
  "'c IColormap \<Rightarrow> nat \<Rightarrow> Graph \<Rightarrow> 's IDFSVisitor \<Rightarrow> 's \<Rightarrow> Vertex \<Rightarrow> error + 'c \<times> 's" where
  "DepthFirstSearch_run Colormap depth graph visitor vs start =
     and_then (for_each (initialize_step Colormap visitor)
                 (construct Colormap (length (GetVertices graph)), vs) (GetVertices graph)) (\<lambda>st1.
     and_then (if start \<noteq> - 1 then
                 (case st1 of (colormap, vs1) \<Rightarrow>
                  and_then (StartVertex visitor start vs1) (\<lambda>vs2.
                  DepthFirstSearchVisit Colormap depth graph visitor (colormap, vs2) start))
               else Inr st1) (\<lambda>st2.
     for_each (sweep_step Colormap depth graph visitor) st2 (GetVertices graph)))"

definition DepthFirstSearch ::
  "'c IColormap \<Rightarrow> nat \<Rightarrow> Graph \<Rightarrow> 's IDFSVisitor \<Rightarrow> 's \<Rightarrow> Vertex \<Rightarrow> error + 's" where
  "DepthFirstSearch Colormap depth graph visitor vs start =
     and_then (DepthFirstSearch_run Colormap depth graph visitor vs start)
       (\<lambda>(colormap, vs'). Inr vs')"

section \<open>The driver\<close>

text \<open>
  The input is the list of parent references, one per vertex (the vertex count is its
  length), and the list of queries. The output is the text written to \<^verbatim>\<open>ancestor.out\<close>.
\<close>

fun read_parents :: "Graph \<Rightarrow> Vertex \<Rightarrow> Vertex \<Rightarrow> int list \<Rightarrow> error + Graph \<times> Vertex" where
  "read_parents graph start vertex [] = Inr (graph, start)"
| "read_parents graph start vertex (parent # rest) =
     (if parent = 0 then read_parents graph vertex (vertex + 1) rest
      else and_then (AddEdge graph \<lparr>source = parent - 1, destination = vertex\<rparr>) (\<lambda>graph'.
           read_parents graph' start (vertex + 1) rest))"

definition answer_query :: "TimeDFSVisitor \<Rightarrow> int \<times> int \<Rightarrow> error + string" where
  "answer_query tv q =
     (case q of (ancestor1, vertex1) \<Rightarrow>
      let ancestor = ancestor1 - 1; vertex = vertex1 - 1 in
      and_then (vec_get (time_in tv) ancestor) (\<lambda>ia.
      and_then (vec_get (time_in tv) vertex) (\<lambda>iv.
      if ia \<le> iv then
        and_then (vec_get (time_out tv) vertex) (\<lambda>ov.
        and_then (vec_get (time_out tv) ancestor) (\<lambda>oa.
        Inr (if ov \<le> oa then ''1'' @ [CHR 0x0A] else ''0'' @ [CHR 0x0A])))
      else Inr (''0'' @ [CHR 0x0A]))))"

definition timestamps :: "nat \<Rightarrow> int list \<Rightarrow> error + TimeDFSVisitor" where
  "timestamps depth parents =
     and_then (read_parents (Graph_new (length parents)) (- 1) 0 parents) (\<lambda>(graph, start).
     DepthFirstSearch Colormap_class depth graph time_dfs_visitor
       (TimeDFSVisitor_new (length parents)) start)"

definition main :: "nat \<Rightarrow> int list \<Rightarrow> (int \<times> int) list \<Rightarrow> error + string" where
  "main depth parents queries =
     and_then (timestamps depth parents) (\<lambda>tv.
     for_each (\<lambda>out q. and_then (answer_query tv q) (\<lambda>line. Inr (out @ line))) [] queries)"

section \<open>Callback traces\<close>

text \<open>
  One event per visitor callback. The recording visitor overrides every callback to log
  it; replaying a trace against a visitor invokes that visitor's callbacks in the order
  of the trace.
\<close>

datatype event =
    OnInitializeVertex Vertex
  | OnDiscoverVertex Vertex
  | OnStartVertex Vertex
  | OnExamineEdge Edge
  | OnTreeEdge Edge
  | OnBackEdge Edge
  | OnForwardOrCrossEdge Edge
  | OnFinishEdge Edge
  | OnFinishVertex Vertex

definition recording_visitor :: "event list IDFSVisitor" where
  "recording_visitor =
     \<lparr>InitializeVertex = (\<lambda>v tr. Inr (tr @ [OnInitializeVertex v])),
      DiscoverVertex = (\<lambda>v tr. Inr (tr @ [OnDiscoverVertex v])),
      StartVertex = (\<lambda>v tr. Inr (tr @ [OnStartVertex v])),
      ExamineEdge = (\<lambda>e tr. Inr (tr @ [OnExamineEdge e])),
      TreeEdge = (\<lambda>e tr. Inr (tr @ [OnTreeEdge e])),
      BackEdge = (\<lambda>e tr. Inr (tr @ [OnBackEdge e])),
      ForwardOrCrossEdge = (\<lambda>e tr. Inr (tr @ [OnForwardOrCrossEdge e])),
      FinishEdge = (\<lambda>e tr. Inr (tr @ [OnFinishEdge e])),
      FinishVertex = (\<lambda>v tr. Inr (tr @ [OnFinishVertex v]))\<rparr>"

fun callback :: "'s IDFSVisitor \<Rightarrow> event \<Rightarrow> 's \<Rightarrow> error + 's" where
  "callback visitor (OnInitializeVertex v) = InitializeVertex visitor v"
| "callback visitor (OnDiscoverVertex v) = DiscoverVertex visitor v"
| "callback visitor (OnStartVertex v) = StartVertex visitor v"
| "callback visitor (OnExamineEdge e) = ExamineEdge visitor e"
| "callback visitor (OnTreeEdge e) = TreeEdge visitor e"
| "callback visitor (OnBackEdge e) = BackEdge visitor e"
| "callback visitor (OnForwardOrCrossEdge e) = ForwardOrCrossEdge visitor e"
| "callback visitor (OnFinishEdge e) = FinishEdge visitor e"
| "callback visitor (OnFinishVertex v) = FinishVertex visitor v"

definition replay :: "'s IDFSVisitor \<Rightarrow> event list \<Rightarrow> 's \<Rightarrow> error + 's" where
  "replay visitor evs s = for_each (\<lambda>s' ev. callback visitor ev s') s evs"

definition in_range :: "'a list \<Rightarrow> int \<Rightarrow> bool" where
  "in_range xs i \<longleftrightarrow> 0 \<le> i \<and> i < int (length xs)"

text \<open>
  The callback protocol of one visit, as the specification words it: the colormap before,
  the vertex, the callbacks made and the colormap after. \<open>edges_protocol\<close> is the loop
  over the remaining outgoing edges of the vertex being visited.
\<close>

inductive visit_protocol :: "Graph \<Rightarrow> Colormap \<Rightarrow> Vertex \<Rightarrow> event list \<Rightarrow> Colormap \<Rightarrow> bool"
  and edges_protocol :: "Graph \<Rightarrow> Colormap \<Rightarrow> Edge list \<Rightarrow> event list \<Rightarrow> Colormap \<Rightarrow> bool"
  where
    visit:
      "in_range cm v \<Longrightarrow> in_range (outgoing_edges g) v \<Longrightarrow>
       edges_protocol g (cm[nat v := kGray]) (outgoing_edges g ! nat v) evs cm1 \<Longrightarrow>
       visit_protocol g cm v (OnDiscoverVertex v # evs @ [OnFinishVertex v]) (cm1[nat v := kBlack])"
  | edges_done:
      "edges_protocol g cm [] [] cm"
  | tree_edge:
      "in_range cm (destination e) \<Longrightarrow> cm ! nat (destination e) = kWhite \<Longrightarrow>
       visit_protocol g cm (destination e) evs1 cm1 \<Longrightarrow>
       edges_protocol g cm1 es evs2 cm2 \<Longrightarrow>
       edges_protocol g cm (e # es)
         (OnExamineEdge e # evs1 @ OnTreeEdge e # OnFinishEdge e # evs2) cm2"
  | back_edge:
      "in_range cm (destination e) \<Longrightarrow> cm ! nat (destination e) = kGray \<Longrightarrow>
       edges_protocol g cm es evs2 cm2 \<Longrightarrow>
       edges_protocol g cm (e # es) (OnExamineEdge e # OnBackEdge e # OnFinishEdge e # evs2) cm2"
  | forward_or_cross_edge:
      "in_range cm (destination e) \<Longrightarrow> cm ! nat (destination e) = kBlack \<Longrightarrow>
       edges_protocol g cm es evs2 cm2 \<Longrightarrow>
       edges_protocol g cm (e # es)
         (OnExamineEdge e # OnForwardOrCrossEdge e # OnFinishEdge e # evs2) cm2"

text \<open>The sweep over the vertices, and the whole traversal.\<close>

inductive sweep_protocol :: "Graph \<Rightarrow> Colormap \<Rightarrow> Vertex list \<Rightarrow> event list \<Rightarrow> Colormap \<Rightarrow> bool"
  where
    sweep_done:
      "sweep_protocol g cm [] [] cm"
  | sweep_visit:
      "in_range cm v \<Longrightarrow> cm ! nat v = kWhite \<Longrightarrow> visit_protocol g cm v evs1 cm1 \<Longrightarrow>
       sweep_protocol g cm1 vs evs2 cm2 \<Longrightarrow>
       sweep_protocol g cm (v # vs) (OnStartVertex v # evs1 @ evs2) cm2"
  | sweep_skip:
      "in_range cm v \<Longrightarrow> cm ! nat v \<noteq> kWhite \<Longrightarrow> sweep_protocol g cm vs evs2 cm2 \<Longrightarrow>
       sweep_protocol g cm (v # vs) evs2 cm2"

inductive traversal_protocol :: "Graph \<Rightarrow> Vertex \<Rightarrow> event list \<Rightarrow> Colormap \<Rightarrow> bool"
  where
    with_start:
      "start \<noteq> - 1 \<Longrightarrow> \<forall>v \<in> set (vertices g). in_range (vertices g) v \<Longrightarrow>
       visit_protocol g (replicate (length (vertices g)) kWhite) start evs1 cm1 \<Longrightarrow>
       sweep_protocol g cm1 (vertices g) evs2 cm2 \<Longrightarrow>
       traversal_protocol g start
         (map OnInitializeVertex (vertices g) @ OnStartVertex start # evs1 @ evs2) cm2"
  | without_start:
      "\<forall>v \<in> set (vertices g). in_range (vertices g) v \<Longrightarrow>
       sweep_protocol g (replicate (length (vertices g)) kWhite) (vertices g) evs2 cm2 \<Longrightarrow>
       traversal_protocol g (- 1) (map OnInitializeVertex (vertices g) @ evs2) cm2"

text \<open>
  The number of unvisited vertices bounds the depth of the recursion; \<open>recolored\<close> is
  what a stretch of a traversal may do to the colormap: turn \<open>kWhite\<close> into \<open>kBlack\<close>.
\<close>

definition white_count :: "Colormap \<Rightarrow> nat" where
  "white_count cm = card {i. i < length cm \<and> cm ! i = kWhite}"

definition recolored :: "Colormap \<Rightarrow> Colormap \<Rightarrow> bool" where
  "recolored cm cm' \<longleftrightarrow> length cm' = length cm \<and>
     (\<forall>i < length cm. cm' ! i = cm ! i \<or> (cm ! i = kWhite \<and> cm' ! i = kBlack))"

text \<open>
  The class invariant of \<^verbatim>\<open>Graph\<close>: the vertices are \<open>0, \<dots>, V - 1\<close>, there is one
  edge list per vertex, and each list holds edges that leave its vertex and end in range
  (\<^verbatim>\<open>AddEdge\<close> files an edge under its source).
\<close>

definition wf_graph :: "Graph \<Rightarrow> bool" where
  "wf_graph g \<longleftrightarrow>
     vertices g = map int [0..<length (outgoing_edges g)] \<and>
     list_all (\<lambda>(v, es). list_all (\<lambda>e. source e = int v \<and>
                 in_range (outgoing_edges g) (destination e)) es)
       (enumerate 0 (outgoing_edges g))"

text \<open>Projections of a trace.\<close>

fun discovered :: "event list \<Rightarrow> Vertex list" where
  "discovered [] = []"
| "discovered (OnDiscoverVertex v # evs) = v # discovered evs"
| "discovered (_ # evs) = discovered evs"

fun finished :: "event list \<Rightarrow> Vertex list" where
  "finished [] = []"
| "finished (OnFinishVertex v # evs) = v # finished evs"
| "finished (_ # evs) = finished evs"

fun examined :: "event list \<Rightarrow> Edge list" where
  "examined [] = []"
| "examined (OnExamineEdge e # evs) = e # examined evs"
| "examined (_ # evs) = examined evs"

text \<open>
  What the timestamp visitor computes from a trace: \<open>ticks\<close> is the number of timer
  increments, \<open>stamps_in t f\<close> and \<open>stamps_out t h\<close> are the contents of \<^verbatim>\<open>time_in\<close>
  and \<^verbatim>\<open>time_out\<close> after the trace, started with timer \<open>t\<close> and contents \<open>f\<close> and \<open>h\<close>.
\<close>

fun ticks :: "event list \<Rightarrow> int" where
  "ticks [] = 0"
| "ticks (OnDiscoverVertex v # evs) = 1 + ticks evs"
| "ticks (OnFinishVertex v # evs) = 1 + ticks evs"
| "ticks (_ # evs) = ticks evs"

fun stamps_in :: "int \<Rightarrow> (Vertex \<Rightarrow> int) \<Rightarrow> event list \<Rightarrow> Vertex \<Rightarrow> int" where
  "stamps_in t f [] = f"
| "stamps_in t f (OnDiscoverVertex v # evs) = stamps_in (t + 1) (f(v := t)) evs"
| "stamps_in t f (OnFinishVertex v # evs) = stamps_in (t + 1) f evs"
| "stamps_in t f (_ # evs) = stamps_in t f evs"

fun stamps_out :: "int \<Rightarrow> (Vertex \<Rightarrow> int) \<Rightarrow> event list \<Rightarrow> Vertex \<Rightarrow> int" where
  "stamps_out t h [] = h"
| "stamps_out t h (OnDiscoverVertex v # evs) = stamps_out (t + 1) h evs"
| "stamps_out t h (OnFinishVertex v # evs) = stamps_out (t + 1) (h(v := t)) evs"
| "stamps_out t h (_ # evs) = stamps_out t h evs"

text \<open>
  The intervals \<open>[tin u, tout u]\<close> of the vertices in \<open>D\<close> are laminar: each is non-empty, and
  two of them are disjoint or one lies strictly inside the other.
\<close>

definition laminar :: "Vertex set \<Rightarrow> (Vertex \<Rightarrow> int) \<Rightarrow> (Vertex \<Rightarrow> int) \<Rightarrow> bool" where
  "laminar D tin tout \<longleftrightarrow>
     (\<forall>u \<in> D. tin u < tout u) \<and>
     (\<forall>u \<in> D. \<forall>w \<in> D. u \<noteq> w \<longrightarrow>
        (tin u < tin w \<and> tout w < tout u) \<or> (tin w < tin u \<and> tout u < tout w) \<or> tout u < tin w \<or> tout w < tin u)"

text \<open>The successor relation of a graph.\<close>

definition succs :: "Graph \<Rightarrow> (Vertex \<times> Vertex) set" where
  "succs g = {(int v, destination e) | v e. v < length (outgoing_edges g) \<and>
                e \<in> set (outgoing_edges g ! v)}"

text \<open>
  The facts about a stretch of a traversal that hold of one visit and compose along a
  sequence of visits.
\<close>

definition good_run :: "Graph \<Rightarrow> Colormap \<Rightarrow> event list \<Rightarrow> Colormap \<Rightarrow> bool" where
  "good_run g cm evs cm' \<longleftrightarrow>
     recolored cm cm' \<and>
     (\<forall>u \<in> set (discovered evs). in_range cm u \<and> cm ! nat u = kWhite \<and> cm' ! nat u = kBlack) \<and>
     (\<forall>i < length cm. cm' ! i \<noteq> cm ! i \<longrightarrow> int i \<in> set (discovered evs)) \<and>
     mset (finished evs) = mset (discovered evs) \<and>
     distinct (discovered evs) \<and>
     mset (examined evs) = mset (concat (map (\<lambda>u. outgoing_edges g ! nat u) (discovered evs))) \<and>
     (\<forall>t f h. laminar (set (discovered evs)) (stamps_in t f evs) (stamps_out t h evs)) \<and>
     (\<forall>t f h. \<forall>a \<in> set (discovered evs). \<forall>u \<in> set (discovered evs).
        stamps_in t f evs a \<le> stamps_in t f evs u \<and> stamps_out t h evs u \<le> stamps_out t h evs a
        \<longrightarrow> (a, u) \<in> (succs g)\<^sup>*)"

text \<open>
  A colormap class that observes the colours. It stores the colours as \<^verbatim>\<open>Colormap\<close> does
  and keeps a log of the calls of \<^verbatim>\<open>SetColor\<close>: the vertex, the colour the vertex held when
  the call was made, and the colour written. \<open>writes_to v\<close> is the part of a log that
  concerns the vertex \<open>v\<close>, in the order of the calls; \<open>unlogged\<close> forgets the log.
\<close>

type_synonym ColorWrite = "Vertex \<times> Color \<times> Color"

definition Logged_GetColor :: "Colormap \<times> ColorWrite list \<Rightarrow> Vertex \<Rightarrow> error + Color" where
  "Logged_GetColor st vertex = (case st of (colormap, log) \<Rightarrow> Colormap_GetColor colormap vertex)"

definition Logged_SetColor ::
  "Colormap \<times> ColorWrite list \<Rightarrow> Vertex \<Rightarrow> Color \<Rightarrow> error + Colormap \<times> ColorWrite list" where
  "Logged_SetColor st vertex color =
     (case st of (colormap, log) \<Rightarrow>
      and_then (Colormap_GetColor colormap vertex) (\<lambda>old.
      and_then (Colormap_SetColor colormap vertex color) (\<lambda>colormap'.
      Inr (colormap', log @ [(vertex, old, color)]))))"

definition logging_colormap :: "(Colormap \<times> ColorWrite list) IColormap" where
  "logging_colormap =
     \<lparr>construct = (\<lambda>vertex_count. (Colormap_new vertex_count, [])),
      GetColor = Logged_GetColor, SetColor = Logged_SetColor\<rparr>"

definition writes_to :: "Vertex \<Rightarrow> ColorWrite list \<Rightarrow> (Color \<times> Color) list" where
  "writes_to v log = map snd (filter (\<lambda>w. fst w = v) log)"

definition unlogged ::
  "error + (Colormap \<times> ColorWrite list) \<times> 's \<Rightarrow> error + Colormap \<times> 's" where
  "unlogged r = and_then r (\<lambda>((colormap, log), vs). Inr (colormap, vs))"

text \<open>
  The writes of a stretch of a traversal that takes the colormap from \<open>cm\<close> to \<open>cm'\<close>:
  a vertex whose colour has changed was written twice, \<open>kWhite\<close> to \<open>kGray\<close> and then
  \<open>kGray\<close> to \<open>kBlack\<close>, and no other vertex was written.
\<close>

definition visit_writes :: "Colormap \<Rightarrow> ColorWrite list \<Rightarrow> Colormap \<Rightarrow> bool" where
  "visit_writes cm ws cm' \<longleftrightarrow>
     recolored cm cm' \<and> (\<forall>w \<in> set ws. in_range cm (fst w)) \<and>
     (\<forall>u. in_range cm u \<longrightarrow> writes_to u ws =
        (if cm' ! nat u = cm ! nat u then [] else [(kWhite, kGray), (kGray, kBlack)]))"

text \<open>
  The input of the driver. A parent reference is 0 for a root and otherwise the 1-based
  index of the parent; \<open>wf_parents\<close> says that every reference is 0 or names a vertex.
  \<open>parent_rel\<close> is the parent-child relation the references describe, on 0-based
  vertices, and \<open>ancestor_or_self\<close> its reflexive transitive closure.
\<close>

definition wf_parents :: "int list \<Rightarrow> bool" where
  "wf_parents parents \<longleftrightarrow> list_all (\<lambda>p. 0 \<le> p \<and> p \<le> int (length parents)) parents"

definition parent_rel :: "int list \<Rightarrow> (Vertex \<times> Vertex) set" where
  "parent_rel parents = {(p, c). 0 \<le> p \<and> in_range parents c \<and> parents ! nat c = p + 1}"

definition ancestor_or_self :: "int list \<Rightarrow> Vertex \<Rightarrow> Vertex \<Rightarrow> bool" where
  "ancestor_or_self parents a v \<longleftrightarrow> (a, v) \<in> (parent_rel parents)\<^sup>*"

text \<open>
  The graph that the input loop of the driver has built after reading the first \<open>k\<close>
  parent references, and the start vertex it ends with.
\<close>

definition edges_of_parents :: "int list \<Rightarrow> nat \<Rightarrow> Vertex \<Rightarrow> Edge list" where
  "edges_of_parents parents k p =
     map (\<lambda>c. \<lparr>source = p, destination = int c\<rparr>) (filter (\<lambda>c. parents ! c = p + 1) [0..<k])"

definition graph_of_parents :: "int list \<Rightarrow> nat \<Rightarrow> Graph" where
  "graph_of_parents parents k =
     \<lparr>vertices = map int [0..<length parents],
      outgoing_edges = map (\<lambda>p. edges_of_parents parents k (int p)) [0..<length parents]\<rparr>"

fun last_root :: "Vertex \<Rightarrow> Vertex \<Rightarrow> int list \<Rightarrow> Vertex" where
  "last_root start vertex [] = start"
| "last_root start vertex (parent # rest) =
     last_root (if parent = 0 then vertex else start) (vertex + 1) rest"

text \<open>The vertices an event mentions.\<close>

fun event_vertices :: "event \<Rightarrow> Vertex list" where
  "event_vertices (OnInitializeVertex v) = [v]"
| "event_vertices (OnDiscoverVertex v) = [v]"
| "event_vertices (OnStartVertex v) = [v]"
| "event_vertices (OnFinishVertex v) = [v]"
| "event_vertices (OnExamineEdge e) = [source e, destination e]"
| "event_vertices (OnTreeEdge e) = [source e, destination e]"
| "event_vertices (OnBackEdge e) = [source e, destination e]"
| "event_vertices (OnForwardOrCrossEdge e) = [source e, destination e]"
| "event_vertices (OnFinishEdge e) = [source e, destination e]"

text \<open>
  A rooted tree given by parent references: every reference is 0 or names a vertex,
  exactly one vertex is a root, and the parent pointers are acyclic, which is to say that
  every vertex reaches a root by following at most \<open>V\<close> parent pointers.
\<close>

fun reaches_root :: "nat \<Rightarrow> int list \<Rightarrow> Vertex \<Rightarrow> bool" where
  "reaches_root 0 parents v \<longleftrightarrow> in_range parents v \<and> parents ! nat v = 0"
| "reaches_root (Suc n) parents v \<longleftrightarrow>
     in_range parents v \<and> (parents ! nat v = 0 \<or> reaches_root n parents (parents ! nat v - 1))"

definition acyclic_parents :: "int list \<Rightarrow> bool" where
  "acyclic_parents parents \<longleftrightarrow>
     list_all (\<lambda>v. reaches_root (length parents) parents (int v)) [0..<length parents]"

definition rooted_tree :: "int list \<Rightarrow> bool" where
  "rooted_tree parents \<longleftrightarrow>
     wf_parents parents \<and> length (filter (\<lambda>p. p = 0) parents) = 1 \<and> acyclic_parents parents"

text \<open>
  A graph is a forest when every vertex has at most one predecessor, no vertex reaches
  itself, and no edge list names a destination twice.
\<close>

definition forest_graph :: "Graph \<Rightarrow> bool" where
  "forest_graph g \<longleftrightarrow>
     (\<forall>p p' c. (p, c) \<in> succs g \<and> (p', c) \<in> succs g \<longrightarrow> p = p') \<and>
     (\<forall>x. (x, x) \<notin> (succs g)\<^sup>+) \<and>
     (\<forall>es \<in> set (outgoing_edges g). distinct (map destination es))"

text \<open>The edges classified as tree edges, and those classified otherwise.\<close>

fun tree_edges :: "event list \<Rightarrow> Edge list" where
  "tree_edges [] = []"
| "tree_edges (OnTreeEdge e # evs) = e # tree_edges evs"
| "tree_edges (_ # evs) = tree_edges evs"

fun non_tree_edges :: "event list \<Rightarrow> Edge list" where
  "non_tree_edges [] = []"
| "non_tree_edges (OnBackEdge e # evs) = e # non_tree_edges evs"
| "non_tree_edges (OnForwardOrCrossEdge e # evs) = e # non_tree_edges evs"
| "non_tree_edges (_ # evs) = non_tree_edges evs"

section \<open>Basic facts\<close>

lemma Colormap_class_simps [simp]:
  "construct Colormap_class = Colormap_new"
  "GetColor Colormap_class = Colormap_GetColor"
  "SetColor Colormap_class = Colormap_SetColor"
  by (simp_all add: Colormap_class_def)

lemma and_then_simps [simp]:
  "and_then (Inr x) f = f x"
  "and_then (Inl e) f = Inl e"
  by (simp_all add: and_then_def)

lemma and_then_eq_Inr: "and_then m f = Inr y \<longleftrightarrow> (\<exists>x. m = Inr x \<and> f x = Inr y)"
  by (cases m) simp_all

lemma vec_get_eq_Inr: "vec_get xs i = Inr x \<longleftrightarrow> in_range xs i \<and> x = xs ! nat i"
  by (auto simp: vec_get_def in_range_def)

lemma vec_set_eq_Inr: "vec_set xs i x = Inr ys \<longleftrightarrow> in_range xs i \<and> ys = xs[nat i := x]"
  by (auto simp: vec_set_def in_range_def)

lemma vec_get_in_range: "in_range xs i \<Longrightarrow> vec_get xs i = Inr (xs ! nat i)"
  by (simp add: vec_get_def in_range_def)

lemma vec_set_in_range: "in_range xs i \<Longrightarrow> vec_set xs i x = Inr (xs[nat i := x])"
  by (simp add: vec_set_def in_range_def)

lemma in_range_update [simp]: "in_range (xs[k := x]) i = in_range xs i"
  by (simp add: in_range_def)

lemma replay_Nil [simp]: "replay vis [] s = Inr s"
  by (simp add: replay_def)

lemma replay_Cons [simp]: "replay vis (ev # evs) s = and_then (callback vis ev s) (replay vis evs)"
  by (simp add: replay_def [abs_def])

lemma replay_append: "replay vis (xs @ ys) s = and_then (replay vis xs s) (replay vis ys)"
proof (induction xs arbitrary: s)
  case Nil
  show ?case by simp
next
  case (Cons x xs)
  show ?case by (cases "callback vis x s") (simp_all add: Cons.IH)
qed

section \<open>Every returning run follows the protocol\<close>

lemma examine_loop_sound:
  assumes visit: "\<And>cm s v cm' s'. visit (cm, s) v = Inr (cm', s') \<Longrightarrow>
            \<exists>evs. visit_protocol g cm v evs cm' \<and> replay vis evs s = Inr s'"
  shows "for_each (examine_edge Colormap_class visit vis) (cm, s) es = Inr (cm', s') \<Longrightarrow>
         \<exists>evs. edges_protocol g cm es evs cm' \<and> replay vis evs s = Inr s'"
proof (induction es arbitrary: cm s)
  case Nil
  then show ?case by (auto intro: edges_done)
next
  case (Cons e es)
  from Cons.prems obtain cm1 s1 where
    step: "examine_edge Colormap_class visit vis (cm, s) e = Inr (cm1, s1)" and
    rest: "for_each (examine_edge Colormap_class visit vis) (cm1, s1) es = Inr (cm', s')"
    by (auto simp: and_then_eq_Inr)
  from Cons.IH [OF rest] obtain evs2 where
    evs2: "edges_protocol g cm1 es evs2 cm'" "replay vis evs2 s1 = Inr s'"
    by blast
  from step obtain sa where sa: "ExamineEdge vis e s = Inr sa" and
    rng: "in_range cm (destination e)"
    by (auto simp: examine_edge_def and_then_eq_Inr Colormap_GetColor_def vec_get_eq_Inr)
  show ?case
  proof (cases "cm ! nat (destination e)")
    case kWhite
    with step sa rng obtain sb sc where
      v: "visit (cm, sa) (destination e) = Inr (cm1, sb)" and
      t: "TreeEdge vis e sb = Inr sc" and f: "FinishEdge vis e sc = Inr s1"
      by (auto simp: examine_edge_def and_then_eq_Inr Colormap_GetColor_def vec_get_eq_Inr split: prod.splits)
    from visit [OF v] obtain evs1 where
      evs1: "visit_protocol g cm (destination e) evs1 cm1" "replay vis evs1 sa = Inr sb"
      by blast
    have "edges_protocol g cm (e # es)
            (OnExamineEdge e # evs1 @ OnTreeEdge e # OnFinishEdge e # evs2) cm'"
      using rng kWhite evs1(1) evs2(1) by (rule tree_edge)
    moreover have "replay vis (OnExamineEdge e # evs1 @ OnTreeEdge e # OnFinishEdge e # evs2) s = Inr s'"
      using sa evs1(2) t f evs2(2) by (simp add: replay_append)
    ultimately show ?thesis by blast
  next
    case kGray
    with step sa rng obtain sc where
      t: "BackEdge vis e sa = Inr sc" and f: "FinishEdge vis e sc = Inr s1" and c: "cm1 = cm"
      by (auto simp: examine_edge_def and_then_eq_Inr Colormap_GetColor_def vec_get_eq_Inr split: prod.splits)
    have "edges_protocol g cm (e # es) (OnExamineEdge e # OnBackEdge e # OnFinishEdge e # evs2) cm'"
      using rng kGray evs2(1) unfolding c by (rule back_edge)
    moreover have "replay vis (OnExamineEdge e # OnBackEdge e # OnFinishEdge e # evs2) s = Inr s'"
      using sa t f evs2(2) by simp
    ultimately show ?thesis by blast
  next
    case kBlack
    with step sa rng obtain sc where
      t: "ForwardOrCrossEdge vis e sa = Inr sc" and f: "FinishEdge vis e sc = Inr s1" and c: "cm1 = cm"
      by (auto simp: examine_edge_def and_then_eq_Inr Colormap_GetColor_def vec_get_eq_Inr split: prod.splits)
    have "edges_protocol g cm (e # es)
            (OnExamineEdge e # OnForwardOrCrossEdge e # OnFinishEdge e # evs2) cm'"
      using rng kBlack evs2(1) unfolding c by (rule forward_or_cross_edge)
    moreover have "replay vis (OnExamineEdge e # OnForwardOrCrossEdge e # OnFinishEdge e # evs2) s = Inr s'"
      using sa t f evs2(2) by simp
    ultimately show ?thesis by blast
  qed
qed

lemma visit_sound:
  "DepthFirstSearchVisit Colormap_class n g vis (cm, s) v = Inr (cm', s') \<Longrightarrow>
   \<exists>evs. visit_protocol g cm v evs cm' \<and> replay vis evs s = Inr s'"
proof (induction n arbitrary: cm s v cm' s')
  case 0
  then show ?case by simp
next
  case (Suc n)
  from Suc.prems obtain s1 cm2 s2 where
    rng: "in_range cm v" and d: "DiscoverVertex vis v s = Inr s1" and
    rg: "in_range (outgoing_edges g) v" and
    loop: "for_each (examine_edge Colormap_class (\<lambda>st' v. DepthFirstSearchVisit Colormap_class n g vis st' v) vis)
             (cm[nat v := kGray], s1) (outgoing_edges g ! nat v) = Inr (cm2, s2)" and
    cm': "cm' = cm2[nat v := kBlack]" and f: "FinishVertex vis v s2 = Inr s'"
    by (auto simp: and_then_eq_Inr Colormap_SetColor_def GetOutgoingEdges_def vec_get_eq_Inr vec_set_eq_Inr)
  from examine_loop_sound [of "\<lambda>st' v. DepthFirstSearchVisit Colormap_class n g vis st' v", OF Suc.IH loop]
  obtain evs where evs: "edges_protocol g (cm[nat v := kGray]) (outgoing_edges g ! nat v) evs cm2"
    "replay vis evs s1 = Inr s2"
    by blast
  have "visit_protocol g cm v (OnDiscoverVertex v # evs @ [OnFinishVertex v]) cm'"
    unfolding cm' using rng rg evs(1) by (rule visit)
  moreover have "replay vis (OnDiscoverVertex v # evs @ [OnFinishVertex v]) s = Inr s'"
    using d evs(2) f by (simp add: replay_append)
  ultimately show ?case by blast
qed


section \<open>Colours along a visit, and every protocol run is a run of the engine\<close>

lemma recolored_refl [simp]: "recolored cm cm"
  by (simp add: recolored_def)

lemma recolored_trans: "recolored a b \<Longrightarrow> recolored b c \<Longrightarrow> recolored a c"
  unfolding recolored_def by (metis Color.distinct(3))

lemma recolored_white_count: "recolored cm cm' \<Longrightarrow> white_count cm' \<le> white_count cm"
  unfolding white_count_def recolored_def
  by (intro card_mono) auto

lemma recolored_in_range: "recolored cm cm' \<Longrightarrow> in_range cm' i = in_range cm i"
  by (simp add: recolored_def in_range_def)

lemma white_count_gray:
  assumes "in_range cm v" "cm ! nat v = kWhite"
  shows "white_count (cm[nat v := kGray]) < white_count cm"
proof -
  have v: "nat v < length cm" using assms(1) by (auto simp: in_range_def)
  have "{i. i < length (cm[nat v := kGray]) \<and> cm[nat v := kGray] ! i = kWhite}
          \<subset> {i. i < length cm \<and> cm ! i = kWhite}"
    using v assms(2) by (auto simp: nth_list_update)
  then show ?thesis unfolding white_count_def by (intro psubset_card_mono) auto
qed

lemma protocol_recolored:
  "visit_protocol g cm v evs cm' \<Longrightarrow> cm ! nat v = kWhite \<longrightarrow> recolored cm cm'"
  "edges_protocol g cm es evs cm' \<Longrightarrow> recolored cm cm'"
proof (induction rule: visit_protocol_edges_protocol.inducts)
  case (visit cm v g evs cm1)
  have v: "nat v < length cm" using visit.hyps(1) by (auto simp: in_range_def)
  show ?case
  proof
    assume w: "cm ! nat v = kWhite"
    from visit.IH have len: "length cm1 = length cm"
      and col: "\<And>i. i < length cm \<Longrightarrow> cm1 ! i = cm[nat v := kGray] ! i \<or>
                  (cm[nat v := kGray] ! i = kWhite \<and> cm1 ! i = kBlack)"
      by (auto simp: recolored_def)
    show "recolored cm (cm1[nat v := kBlack])"
      unfolding recolored_def
    proof (intro conjI allI impI)
      show "length (cm1[nat v := kBlack]) = length cm" using len by simp
    next
      fix i assume i: "i < length cm"
      show "cm1[nat v := kBlack] ! i = cm ! i \<or> cm ! i = kWhite \<and> cm1[nat v := kBlack] ! i = kBlack"
        using col [OF i] i w v len by (cases "i = nat v") (auto simp: nth_list_update)
    qed
  qed
next
  case (edges_done g cm)
  show ?case by simp
next
  case (tree_edge cm e g evs1 cm1 es evs2 cm2)
  then show ?case by (blast intro: recolored_trans)
next
  case (back_edge cm e g es evs2 cm2)
  then show ?case by simp
next
  case (forward_or_cross_edge cm e g es evs2 cm2)
  then show ?case by simp
qed

lemma visit_recolored: "visit_protocol g cm v evs cm' \<Longrightarrow> cm ! nat v = kWhite \<Longrightarrow> recolored cm cm'"
  using protocol_recolored(1) by blast

lemma replay_eq_Inr_Cons:
  "replay vis (ev # evs) s = Inr s' \<longleftrightarrow> (\<exists>s1. callback vis ev s = Inr s1 \<and> replay vis evs s1 = Inr s')"
  by (simp add: and_then_eq_Inr)

lemma replay_eq_Inr_append:
  "replay vis (xs @ ys) s = Inr s' \<longleftrightarrow> (\<exists>s1. replay vis xs s = Inr s1 \<and> replay vis ys s1 = Inr s')"
  by (simp add: replay_append and_then_eq_Inr)

lemma protocol_complete:
  "visit_protocol g cm v evs cm' \<Longrightarrow>
     (\<forall>n s s'. cm ! nat v = kWhite \<longrightarrow> white_count cm \<le> n \<longrightarrow> replay vis evs s = Inr s' \<longrightarrow>
        DepthFirstSearchVisit Colormap_class n g vis (cm, s) v = Inr (cm', s'))"
  "edges_protocol g cm es evs cm' \<Longrightarrow>
     (\<forall>n s s'. white_count cm \<le> n \<longrightarrow> replay vis evs s = Inr s' \<longrightarrow>
        for_each (examine_edge Colormap_class (\<lambda>st' v. DepthFirstSearchVisit Colormap_class n g vis st' v) vis) (cm, s) es
          = Inr (cm', s'))"
proof (induction rule: visit_protocol_edges_protocol.inducts)
  case (visit cm v g evs cm1)
  show ?case
  proof (intro allI impI)
    fix n s s'
    assume w: "cm ! nat v = kWhite" and n: "white_count cm \<le> n"
      and r: "replay vis (OnDiscoverVertex v # evs @ [OnFinishVertex v]) s = Inr s'"
    from white_count_gray [OF visit.hyps(1) w] n obtain m where
      m: "n = Suc m" "white_count (cm[nat v := kGray]) \<le> m"
      by (cases n) auto
    from r obtain s1 s2 where d: "DiscoverVertex vis v s = Inr s1"
      and e: "replay vis evs s1 = Inr s2" and f: "FinishVertex vis v s2 = Inr s'"
      by (auto simp: replay_eq_Inr_Cons replay_eq_Inr_append and_then_eq_Inr)
    from visit.IH m(2) e have loop:
      "for_each (examine_edge Colormap_class (\<lambda>st' v. DepthFirstSearchVisit Colormap_class m g vis st' v) vis)
         (cm[nat v := kGray], s1) (outgoing_edges g ! nat v) = Inr (cm1, s2)"
      by blast
    have "in_range cm1 v"
      using protocol_recolored(2) [OF visit.hyps(3)] visit.hyps(1)
      by (simp add: recolored_in_range)
    then show "DepthFirstSearchVisit Colormap_class n g vis (cm, s) v = Inr (cm1[nat v := kBlack], s')"
      using visit.hyps(1,2) d loop f
      by (simp add: m(1) Colormap_SetColor_def GetOutgoingEdges_def vec_get_in_range vec_set_in_range)
  qed
next
  case (edges_done g cm)
  show ?case by simp
next
  case (tree_edge cm e g evs1 cm1 es evs2 cm2)
  show ?case
  proof (intro allI impI)
    fix n s s'
    assume n: "white_count cm \<le> n"
      and r: "replay vis (OnExamineEdge e # evs1 @ OnTreeEdge e # OnFinishEdge e # evs2) s = Inr s'"
    from r obtain sa sb sc sd where x: "ExamineEdge vis e s = Inr sa"
      and r1: "replay vis evs1 sa = Inr sb" and t: "TreeEdge vis e sb = Inr sc"
      and f: "FinishEdge vis e sc = Inr sd" and r2: "replay vis evs2 sd = Inr s'"
      by (auto simp: replay_eq_Inr_append and_then_eq_Inr)
    from tree_edge.IH(1) tree_edge.hyps(2) n r1
    have v: "DepthFirstSearchVisit Colormap_class n g vis (cm, sa) (destination e) = Inr (cm1, sb)"
      by blast
    have "white_count cm1 \<le> n"
      using recolored_white_count [OF visit_recolored [OF tree_edge.hyps(3,2)]] n by simp
    with tree_edge.IH(2) r2 have rest:
      "for_each (examine_edge Colormap_class (\<lambda>st' v. DepthFirstSearchVisit Colormap_class n g vis st' v) vis) (cm1, sd) es
         = Inr (cm2, s')"
      by blast
    have "examine_edge Colormap_class (\<lambda>st' v. DepthFirstSearchVisit Colormap_class n g vis st' v) vis (cm, s) e = Inr (cm1, sd)"
      using x tree_edge.hyps(1,2) v t f
      by (simp add: examine_edge_def Colormap_GetColor_def vec_get_in_range)
    with rest show "for_each (examine_edge Colormap_class (\<lambda>st' v. DepthFirstSearchVisit Colormap_class n g vis st' v) vis)
        (cm, s) (e # es) = Inr (cm2, s')"
      by simp
  qed
next
  case (back_edge cm e g es evs2 cm2)
  show ?case
  proof (intro allI impI)
    fix n s s'
    assume n: "white_count cm \<le> n"
      and r: "replay vis (OnExamineEdge e # OnBackEdge e # OnFinishEdge e # evs2) s = Inr s'"
    from r obtain sa sc sd where x: "ExamineEdge vis e s = Inr sa"
      and t: "BackEdge vis e sa = Inr sc"
      and f: "FinishEdge vis e sc = Inr sd" and r2: "replay vis evs2 sd = Inr s'"
      by (auto simp: and_then_eq_Inr)
    from back_edge.IH n r2 have rest:
      "for_each (examine_edge Colormap_class (\<lambda>st' v. DepthFirstSearchVisit Colormap_class n g vis st' v) vis) (cm, sd) es
         = Inr (cm2, s')"
      by blast
    have "examine_edge Colormap_class (\<lambda>st' v. DepthFirstSearchVisit Colormap_class n g vis st' v) vis (cm, s) e = Inr (cm, sd)"
      using x back_edge.hyps(1,2) t f
      by (simp add: examine_edge_def Colormap_GetColor_def vec_get_in_range)
    with rest show "for_each (examine_edge Colormap_class (\<lambda>st' v. DepthFirstSearchVisit Colormap_class n g vis st' v) vis)
        (cm, s) (e # es) = Inr (cm2, s')"
      by simp
  qed
next
  case (forward_or_cross_edge cm e g es evs2 cm2)
  show ?case
  proof (intro allI impI)
    fix n s s'
    assume n: "white_count cm \<le> n"
      and r: "replay vis (OnExamineEdge e # OnForwardOrCrossEdge e # OnFinishEdge e # evs2) s = Inr s'"
    from r obtain sa sc sd where x: "ExamineEdge vis e s = Inr sa"
      and t: "ForwardOrCrossEdge vis e sa = Inr sc"
      and f: "FinishEdge vis e sc = Inr sd" and r2: "replay vis evs2 sd = Inr s'"
      by (auto simp: and_then_eq_Inr)
    from forward_or_cross_edge.IH n r2 have rest:
      "for_each (examine_edge Colormap_class (\<lambda>st' v. DepthFirstSearchVisit Colormap_class n g vis st' v) vis) (cm, sd) es
         = Inr (cm2, s')"
      by blast
    have "examine_edge Colormap_class (\<lambda>st' v. DepthFirstSearchVisit Colormap_class n g vis st' v) vis (cm, s) e = Inr (cm, sd)"
      using x forward_or_cross_edge.hyps(1,2) t f
      by (simp add: examine_edge_def Colormap_GetColor_def vec_get_in_range)
    with rest show "for_each (examine_edge Colormap_class (\<lambda>st' v. DepthFirstSearchVisit Colormap_class n g vis st' v) vis)
        (cm, s) (e # es) = Inr (cm2, s')"
      by simp
  qed
qed

section \<open>Well-formed graphs: every visit of an unvisited vertex has a run\<close>

lemma wf_graphD:
  assumes "wf_graph g" "v < length (outgoing_edges g)" "e \<in> set (outgoing_edges g ! v)"
  shows "source e = int v" "in_range (outgoing_edges g) (destination e)"
proof -
  have "(v, outgoing_edges g ! v) \<in> set (enumerate 0 (outgoing_edges g))"
    using assms(2) by (simp add: in_set_enumerate_eq)
  with assms(1) have "list_all (\<lambda>e. source e = int v \<and>
                 in_range (outgoing_edges g) (destination e)) (outgoing_edges g ! v)"
    unfolding wf_graph_def list_all_iff by blast
  with assms(3) show "source e = int v" "in_range (outgoing_edges g) (destination e)"
    by (auto simp: list_all_iff)
qed

lemma wf_graph_vertices: "wf_graph g \<Longrightarrow> vertices g = map int [0..<length (outgoing_edges g)]"
  by (simp add: wf_graph_def)

lemma discovered_append [simp]: "discovered (xs @ ys) = discovered xs @ discovered ys"
  by (induction xs rule: discovered.induct) simp_all

lemma finished_append [simp]: "finished (xs @ ys) = finished xs @ finished ys"
  by (induction xs rule: finished.induct) simp_all

lemma examined_append [simp]: "examined (xs @ ys) = examined xs @ examined ys"
  by (induction xs rule: examined.induct) simp_all

lemma edges_exists:
  assumes visit: "\<And>cm v. length cm = L \<Longrightarrow> in_range cm v \<Longrightarrow> cm ! nat v = kWhite \<Longrightarrow>
            white_count cm \<le> n \<Longrightarrow> \<exists>evs cm'. visit_protocol g cm v evs cm'"
  shows "length cm = L \<Longrightarrow> white_count cm \<le> n \<Longrightarrow> \<forall>e \<in> set es. in_range cm (destination e) \<Longrightarrow>
         \<exists>evs cm'. edges_protocol g cm es evs cm'"
proof (induction es arbitrary: cm)
  case Nil
  show ?case by (blast intro: edges_done)
next
  case (Cons e es)
  have rng: "in_range cm (destination e)" using Cons.prems(3) by simp
  show ?case
  proof (cases "cm ! nat (destination e)")
    case kWhite
    from visit [OF Cons.prems(1) rng kWhite Cons.prems(2)] obtain evs1 cm1
      where v: "visit_protocol g cm (destination e) evs1 cm1" by blast
    have rc: "recolored cm cm1" using v kWhite by (rule visit_recolored)
    have "length cm1 = L" using rc Cons.prems(1) by (simp add: recolored_def)
    moreover have "white_count cm1 \<le> n"
      using recolored_white_count [OF rc] Cons.prems(2) by simp
    moreover have "\<forall>e \<in> set es. in_range cm1 (destination e)"
      using Cons.prems(3) by (simp add: recolored_in_range [OF rc])
    ultimately obtain evs2 cm2 where "edges_protocol g cm1 es evs2 cm2"
      using Cons.IH by blast
    with rng kWhite v show ?thesis by (blast intro: tree_edge)
  next
    case kGray
    from Cons.IH [OF Cons.prems(1,2)] Cons.prems(3) obtain evs2 cm2
      where "edges_protocol g cm es evs2 cm2" by auto
    with rng kGray show ?thesis by (blast intro: back_edge)
  next
    case kBlack
    from Cons.IH [OF Cons.prems(1,2)] Cons.prems(3) obtain evs2 cm2
      where "edges_protocol g cm es evs2 cm2" by auto
    with rng kBlack show ?thesis by (blast intro: forward_or_cross_edge)
  qed
qed

lemma visit_exists:
  assumes wf: "wf_graph g"
  shows "length cm = length (outgoing_edges g) \<Longrightarrow> in_range cm v \<Longrightarrow> cm ! nat v = kWhite \<Longrightarrow>
         white_count cm \<le> n \<Longrightarrow> \<exists>evs cm'. visit_protocol g cm v evs cm'"
proof (induction n arbitrary: cm v)
  case 0
  from white_count_gray [OF "0.prems"(2,3)] "0.prems"(4) show ?case by simp
next
  case (Suc n)
  have v: "nat v < length (outgoing_edges g)" "in_range (outgoing_edges g) v"
    using Suc.prems(1,2) by (auto simp: in_range_def)
  have "length (cm[nat v := kGray]) = length (outgoing_edges g)"
    using Suc.prems(1) by simp
  moreover have "white_count (cm[nat v := kGray]) \<le> n"
    using white_count_gray [OF Suc.prems(2,3)] Suc.prems(4) by simp
  moreover have "\<forall>e \<in> set (outgoing_edges g ! nat v). in_range (cm[nat v := kGray]) (destination e)"
    using wf_graphD(2) [OF wf v(1)] Suc.prems(1) by (simp add: in_range_def)
  ultimately obtain evs cm1 where
    "edges_protocol g (cm[nat v := kGray]) (outgoing_edges g ! nat v) evs cm1"
    using edges_exists [of "length (outgoing_edges g)" n g, OF Suc.IH] by blast
  with Suc.prems(2) v(2) show ?case by (blast intro: visit)
qed

section \<open>What a visit discovers, finishes and examines\<close>

lemma recolored_black: "recolored a b \<Longrightarrow> i < length a \<Longrightarrow> a ! i = kBlack \<Longrightarrow> b ! i = kBlack"
  unfolding recolored_def by (metis Color.distinct(3))

lemma recolored_white: "recolored a b \<Longrightarrow> i < length a \<Longrightarrow> b ! i = kWhite \<Longrightarrow> a ! i = kWhite"
  unfolding recolored_def by (metis Color.distinct(3))

lemma recolored_gray: "recolored a b \<Longrightarrow> i < length a \<Longrightarrow> a ! i = kGray \<Longrightarrow> b ! i = kGray"
  unfolding recolored_def by (metis Color.distinct(1))

lemma in_range_nat: "in_range xs i \<Longrightarrow> nat i < length xs \<and> int (nat i) = i"
  by (auto simp: in_range_def)

lemma protocol_discovered_colors:
  "visit_protocol g cm v evs cm' \<Longrightarrow> cm ! nat v = kWhite \<longrightarrow>
     (\<forall>u \<in> set (discovered evs). in_range cm u \<and> cm ! nat u = kWhite \<and> cm' ! nat u = kBlack)"
  "edges_protocol g cm es evs cm' \<Longrightarrow>
     (\<forall>u \<in> set (discovered evs). in_range cm u \<and> cm ! nat u = kWhite \<and> cm' ! nat u = kBlack)"
proof (induction rule: visit_protocol_edges_protocol.inducts)
  case (visit cm v g evs cm1)
  show ?case
  proof (intro impI ballI)
    fix u
    assume w: "cm ! nat v = kWhite"
      and u: "u \<in> set (discovered (OnDiscoverVertex v # evs @ [OnFinishVertex v]))"
    have rc: "recolored (cm[nat v := kGray]) cm1"
      using visit.hyps(3) by (rule protocol_recolored(2))
    then have len: "length cm1 = length cm" by (simp add: recolored_def)
    have v: "nat v < length cm" using visit.hyps(1) by (simp add: in_range_nat)
    show "in_range cm u \<and> cm ! nat u = kWhite \<and> cm1[nat v := kBlack] ! nat u = kBlack"
    proof (cases "u = v")
      case True
      then show ?thesis using visit.hyps(1) w v len by simp
    next
      case False
      with u have "u \<in> set (discovered evs)" by simp
      with visit.IH have *: "in_range cm u" "cm[nat v := kGray] ! nat u = kWhite"
        "cm1 ! nat u = kBlack"
        by auto
      from *(2) v have "nat u \<noteq> nat v" by (auto simp: nth_list_update split: if_splits)
      with * show ?thesis by simp
    qed
  qed
next
  case (edges_done g cm)
  show ?case by simp
next
  case (tree_edge cm e g evs1 cm1 es evs2 cm2)
  have rc1: "recolored cm cm1" using tree_edge.hyps(3,2) by (rule visit_recolored)
  have rc2: "recolored cm1 cm2" using tree_edge.hyps(4) by (rule protocol_recolored(2))
  show ?case
  proof
    fix u
    assume "u \<in> set (discovered (OnExamineEdge e # evs1 @ OnTreeEdge e # OnFinishEdge e # evs2))"
    then consider "u \<in> set (discovered evs1)" | "u \<in> set (discovered evs2)" by auto
    then show "in_range cm u \<and> cm ! nat u = kWhite \<and> cm2 ! nat u = kBlack"
    proof cases
      case 1
      with tree_edge.IH(1) tree_edge.hyps(2) have *: "in_range cm u" "cm ! nat u = kWhite"
        "cm1 ! nat u = kBlack" by auto
      have "nat u < length cm1" using *(1) rc1 by (simp add: in_range_nat recolored_def)
      with recolored_black [OF rc2 this *(3)] * show ?thesis by simp
    next
      case 2
      with tree_edge.IH(2) have *: "in_range cm1 u" "cm1 ! nat u = kWhite"
        "cm2 ! nat u = kBlack" by auto
      have r: "in_range cm u" using *(1) by (simp add: recolored_in_range [OF rc1])
      with recolored_white [OF rc1 _ *(2)] * show ?thesis by (simp add: in_range_nat)
    qed
  qed
next
  case (back_edge cm e g es evs2 cm2)
  then show ?case by simp
next
  case (forward_or_cross_edge cm e g es evs2 cm2)
  then show ?case by simp
qed

lemma protocol_changed_discovered:
  "visit_protocol g cm v evs cm' \<Longrightarrow> cm ! nat v = kWhite \<longrightarrow>
     (\<forall>i < length cm. cm' ! i \<noteq> cm ! i \<longrightarrow> int i \<in> set (discovered evs))"
  "edges_protocol g cm es evs cm' \<Longrightarrow>
     (\<forall>i < length cm. cm' ! i \<noteq> cm ! i \<longrightarrow> int i \<in> set (discovered evs))"
proof (induction rule: visit_protocol_edges_protocol.inducts)
  case (visit cm v g evs cm1)
  show ?case
  proof (intro impI allI)
    fix i
    assume i: "i < length cm" and ch: "cm1[nat v := kBlack] ! i \<noteq> cm ! i"
    show "int i \<in> set (discovered (OnDiscoverVertex v # evs @ [OnFinishVertex v]))"
    proof (cases "i = nat v")
      case True
      then show ?thesis using visit.hyps(1) by (simp add: in_range_def)
    next
      case False
      with ch i have "cm1 ! i \<noteq> cm[nat v := kGray] ! i" by simp
      with visit.IH i show ?thesis by simp
    qed
  qed
next
  case (edges_done g cm)
  show ?case by simp
next
  case (tree_edge cm e g evs1 cm1 es evs2 cm2)
  have rc1: "recolored cm cm1" using tree_edge.hyps(3,2) by (rule visit_recolored)
  then have "length cm1 = length cm" by (simp add: recolored_def)
  with tree_edge.IH tree_edge.hyps(2) show ?case by auto
next
  case (back_edge cm e g es evs2 cm2)
  then show ?case by simp
next
  case (forward_or_cross_edge cm e g es evs2 cm2)
  then show ?case by simp
qed

lemma protocol_finished:
  "visit_protocol g cm v evs cm' \<Longrightarrow> mset (finished evs) = mset (discovered evs)"
  "edges_protocol g cm es evs cm' \<Longrightarrow> mset (finished evs) = mset (discovered evs)"
  by (induction rule: visit_protocol_edges_protocol.inducts) simp_all

lemma edges_not_discovered:
  assumes "edges_protocol g cm es evs cm'" "cm ! nat v \<noteq> kWhite"
  shows "v \<notin> set (discovered evs)" "v \<notin> set (finished evs)"
proof -
  show "v \<notin> set (discovered evs)"
    using protocol_discovered_colors(2) [OF assms(1)] assms(2) by blast
  then show "v \<notin> set (finished evs)"
    using protocol_finished(2) [OF assms(1)] by (metis set_mset_mset)
qed

lemma visit_then_edges_disjoint:
  assumes "visit_protocol g cm v evs1 cm1" "cm ! nat v = kWhite" "edges_protocol g cm1 es evs2 cm2"
  shows "set (discovered evs1) \<inter> set (discovered evs2) = {}"
  using protocol_discovered_colors(1) [OF assms(1)] assms(2)
    protocol_discovered_colors(2) [OF assms(3)]
  by (metis Color.distinct(3) disjoint_iff)

lemma protocol_distinct:
  "visit_protocol g cm v evs cm' \<Longrightarrow> cm ! nat v = kWhite \<longrightarrow> distinct (discovered evs)"
  "edges_protocol g cm es evs cm' \<Longrightarrow> distinct (discovered evs)"
proof (induction rule: visit_protocol_edges_protocol.inducts)
  case (visit cm v g evs cm1)
  have "cm[nat v := kGray] ! nat v \<noteq> kWhite"
    using visit.hyps(1) by (simp add: in_range_nat)
  from edges_not_discovered(1) [OF visit.hyps(3) this] visit.IH
  show ?case by simp
next
  case (edges_done g cm)
  show ?case by simp
next
  case (tree_edge cm e g evs1 cm1 es evs2 cm2)
  from visit_then_edges_disjoint [OF tree_edge.hyps(3,2,4)] tree_edge.IH tree_edge.hyps(2)
  show ?case by simp
next
  case (back_edge cm e g es evs2 cm2)
  then show ?case by simp
next
  case (forward_or_cross_edge cm e g es evs2 cm2)
  then show ?case by simp
qed

lemma protocol_examined:
  "visit_protocol g cm v evs cm' \<Longrightarrow>
     mset (examined evs) = mset (concat (map (\<lambda>u. outgoing_edges g ! nat u) (discovered evs)))"
  "edges_protocol g cm es evs cm' \<Longrightarrow>
     mset (examined evs) =
       mset es + mset (concat (map (\<lambda>u. outgoing_edges g ! nat u) (discovered evs)))"
  by (induction rule: visit_protocol_edges_protocol.inducts) simp_all

section \<open>Timestamps as a function of the trace\<close>

lemma ticks_append [simp]: "ticks (xs @ ys) = ticks xs + ticks ys"
  by (induction xs rule: ticks.induct) simp_all

lemma ticks_nonneg: "0 \<le> ticks evs"
  by (induction evs rule: ticks.induct) simp_all

lemma stamps_in_append [simp]:
  "stamps_in t f (xs @ ys) = stamps_in (t + ticks xs) (stamps_in t f xs) ys"
  by (induction t f xs rule: stamps_in.induct) (simp_all add: add.assoc fun_upd_def)

lemma stamps_out_append [simp]:
  "stamps_out t h (xs @ ys) = stamps_out (t + ticks xs) (stamps_out t h xs) ys"
  by (induction t h xs rule: stamps_out.induct) (simp_all add: add.assoc fun_upd_def)

lemma stamps_in_other: "u \<notin> set (discovered evs) \<Longrightarrow> stamps_in t f evs u = f u"
  by (induction t f evs rule: stamps_in.induct) simp_all

lemma stamps_out_other: "u \<notin> set (finished evs) \<Longrightarrow> stamps_out t h evs u = h u"
  by (induction t h evs rule: stamps_out.induct) simp_all

lemma stamps_in_bounds:
  "u \<in> set (discovered evs) \<Longrightarrow> t \<le> stamps_in t f evs u \<and> stamps_in t f evs u < t + ticks evs"
proof (induction t f evs rule: stamps_in.induct)
  case (2 t f v evs)
  show ?case
  proof (cases "u \<in> set (discovered evs)")
    case True
    with "2.IH" show ?thesis by (simp add: fun_upd_def)
  next
    case False
    with "2.prems" have "u = v" by simp
    with False ticks_nonneg [of evs] show ?thesis by (simp add: stamps_in_other)
  qed
qed auto

lemma stamps_out_bounds:
  "u \<in> set (finished evs) \<Longrightarrow> t \<le> stamps_out t h evs u \<and> stamps_out t h evs u < t + ticks evs"
proof (induction t h evs rule: stamps_out.induct)
  case (3 t h v evs)
  show ?case
  proof (cases "u \<in> set (finished evs)")
    case True
    with "3.IH" show ?thesis by (simp add: fun_upd_def)
  next
    case False
    with "3.prems" have "u = v" by simp
    with False ticks_nonneg [of evs] show ?thesis by (simp add: stamps_out_other)
  qed
qed auto

lemma stamps_in_fresh:
  "u \<in> set (discovered evs) \<Longrightarrow> stamps_in t f evs u = stamps_in t f' evs u"
proof (induction t f evs arbitrary: f' rule: stamps_in.induct)
  case (2 t f v evs)
  show ?case
  proof (cases "u \<in> set (discovered evs)")
    case True
    with "2.IH" show ?thesis by (simp add: fun_upd_def)
  next
    case False
    with "2.prems" have "u = v" by simp
    with False show ?thesis by (simp add: stamps_in_other)
  qed
qed simp_all

lemma stamps_out_fresh:
  "u \<in> set (finished evs) \<Longrightarrow> stamps_out t h evs u = stamps_out t h' evs u"
proof (induction t h evs arbitrary: h' rule: stamps_out.induct)
  case (3 t h v evs)
  show ?case
  proof (cases "u \<in> set (finished evs)")
    case True
    with "3.IH" show ?thesis by (simp add: fun_upd_def)
  next
    case False
    with "3.prems" have "u = v" by simp
    with False show ?thesis by (simp add: stamps_out_other)
  qed
qed simp_all

lemma ticks_count: "ticks evs = int (length (discovered evs)) + int (length (finished evs))"
  by (induction evs rule: ticks.induct) simp_all

lemma laminar_empty [simp]: "laminar {} tin tout"
  by (simp add: laminar_def)

lemma laminar_cong:
  "(\<And>u. u \<in> D \<Longrightarrow> tin u = tin' u \<and> tout u = tout' u) \<Longrightarrow> laminar D tin tout \<Longrightarrow> laminar D tin' tout'"
  unfolding laminar_def by simp

lemma laminar_union:
  assumes "laminar A tin tout" "laminar B tin tout" "\<And>a b. a \<in> A \<Longrightarrow> b \<in> B \<Longrightarrow> tout a < tin b"
  shows "laminar (A \<union> B) tin tout"
  unfolding laminar_def
proof (intro conjI ballI impI)
  fix u assume "u \<in> A \<union> B"
  then show "tin u < tout u" using assms(1,2) by (auto simp: laminar_def)
next
  fix u w assume u: "u \<in> A \<union> B" and w: "w \<in> A \<union> B" and ne: "u \<noteq> w"
  consider "u \<in> A" "w \<in> A" | "u \<in> B" "w \<in> B" | "u \<in> A" "w \<in> B" | "u \<in> B" "w \<in> A"
    using u w by blast
  then show "(tin u < tin w \<and> tout w < tout u) \<or> (tin w < tin u \<and> tout u < tout w) \<or> tout u < tin w \<or> tout w < tin u"
  proof cases
    case 1 then show ?thesis using assms(1) ne unfolding laminar_def by blast
  next
    case 2 then show ?thesis using assms(2) ne unfolding laminar_def by blast
  next
    case 3 then show ?thesis using assms(3) by blast
  next
    case 4 then show ?thesis using assms(3) by blast
  qed
qed

lemma laminar_insert:
  assumes "laminar A tin tout" "tin v < tout v" "\<And>a. a \<in> A \<Longrightarrow> tin v < tin a \<and> tout a < tout v"
  shows "laminar (insert v A) tin tout"
  unfolding laminar_def
proof (intro conjI ballI impI)
  fix u assume "u \<in> insert v A"
  then show "tin u < tout u" using assms(1,2) by (auto simp: laminar_def)
next
  fix u w assume u: "u \<in> insert v A" and w: "w \<in> insert v A" and ne: "u \<noteq> w"
  consider "u \<in> A" "w \<in> A" | "u = v" "w \<in> A" | "u \<in> A" "w = v"
    using u w ne by blast
  then show "(tin u < tin w \<and> tout w < tout u) \<or> (tin w < tin u \<and> tout u < tout w) \<or> tout u < tin w \<or> tout w < tin u"
  proof cases
    case 1 then show ?thesis using assms(1) ne unfolding laminar_def by blast
  next
    case 2 then show ?thesis using assms(3) by blast
  next
    case 3 then show ?thesis using assms(3) by blast
  qed
qed

section \<open>The intervals of one visit are laminar\<close>

lemma edges_finished_set:
  "edges_protocol g cm es evs cm' \<Longrightarrow> set (finished evs) = set (discovered evs)"
  using protocol_finished(2) by (metis set_mset_mset)

lemma visit_finished_set:
  "visit_protocol g cm v evs cm' \<Longrightarrow> set (finished evs) = set (discovered evs)"
  using protocol_finished(1) by (metis set_mset_mset)

lemma visit_trace_stamps:
  "stamps_in t f (OnDiscoverVertex v # evs @ [OnFinishVertex v]) = stamps_in (t + 1) (f(v := t)) evs"
  "stamps_out t h (OnDiscoverVertex v # evs @ [OnFinishVertex v]) =
     (stamps_out (t + 1) h evs)(v := t + 1 + ticks evs)"
  by simp_all

lemma tree_edge_trace_stamps:
  "stamps_in t f (OnExamineEdge e # evs1 @ OnTreeEdge e # OnFinishEdge e # evs2) =
     stamps_in (t + ticks evs1) (stamps_in t f evs1) evs2"
  "stamps_out t h (OnExamineEdge e # evs1 @ OnTreeEdge e # OnFinishEdge e # evs2) =
     stamps_out (t + ticks evs1) (stamps_out t h evs1) evs2"
  by simp_all

lemma visit_root_stamps:
  assumes "visit_protocol g cm v evs cm'" "cm ! nat v = kWhite"
  shows "stamps_in t f evs v = t" "stamps_out t h evs v = t + ticks evs - 1"
proof -
  from assms(1) obtain evs' cm1 where evs: "evs = OnDiscoverVertex v # evs' @ [OnFinishVertex v]"
    and rng: "in_range cm v"
    and e: "edges_protocol g (cm[nat v := kGray]) (outgoing_edges g ! nat v) evs' cm1"
    by (auto elim: visit_protocol.cases)
  have "cm[nat v := kGray] ! nat v \<noteq> kWhite" using rng by (simp add: in_range_nat)
  from edges_not_discovered [OF e this]
  show "stamps_in t f evs v = t" "stamps_out t h evs v = t + ticks evs - 1"
    unfolding evs visit_trace_stamps by (simp_all add: stamps_in_other)
qed

lemma protocol_laminar:
  "visit_protocol g cm v evs cm' \<Longrightarrow> cm ! nat v = kWhite \<longrightarrow>
     (\<forall>t f h. laminar (set (discovered evs)) (stamps_in t f evs) (stamps_out t h evs))"
  "edges_protocol g cm es evs cm' \<Longrightarrow>
     (\<forall>t f h. laminar (set (discovered evs)) (stamps_in t f evs) (stamps_out t h evs))"
proof (induction rule: visit_protocol_edges_protocol.inducts)
  case (visit cm v g evs cm1)
  have "cm[nat v := kGray] ! nat v \<noteq> kWhite" using visit.hyps(1) by (simp add: in_range_nat)
  note nd = edges_not_discovered [OF visit.hyps(3) this]
  note fs = edges_finished_set [OF visit.hyps(3)]
  show ?case
  proof (intro impI allI)
    fix t f h
    let ?tin = "stamps_in (t + 1) (f(v := t)) evs"
    let ?tout = "stamps_out (t + 1) h evs"
    let ?tout' = "?tout(v := t + 1 + ticks evs)"
    have "laminar (set (discovered evs)) ?tin ?tout" using visit.IH by blast
    then have 1: "laminar (set (discovered evs)) ?tin ?tout'"
      using nd(1) by (elim laminar_cong [rotated]) auto
    have 2: "?tin v = t" using nd(1) by (simp add: stamps_in_other)
    have 3: "?tin v < ?tout' v" using 2 ticks_nonneg [of evs] by simp
    have 4: "?tin v < ?tin a \<and> ?tout' a < ?tout' v" if a: "a \<in> set (discovered evs)" for a
    proof -
      have "a \<noteq> v" using a nd(1) by blast
      moreover have "t + 1 \<le> ?tin a" using stamps_in_bounds [OF a] by blast
      moreover have "?tout a < t + 1 + ticks evs"
        using stamps_out_bounds [of a evs "t + 1" h] a fs by blast
      ultimately show ?thesis using 2 by simp
    qed
    have "laminar (insert v (set (discovered evs))) ?tin ?tout'"
      using 1 3 4 by (rule laminar_insert)
    then show "laminar (set (discovered (OnDiscoverVertex v # evs @ [OnFinishVertex v])))
       (stamps_in t f (OnDiscoverVertex v # evs @ [OnFinishVertex v]))
       (stamps_out t h (OnDiscoverVertex v # evs @ [OnFinishVertex v]))"
      unfolding visit_trace_stamps by simp
  qed
next
  case (edges_done g cm)
  show ?case by simp
next
  case (tree_edge cm e g evs1 cm1 es evs2 cm2)
  note dj = visit_then_edges_disjoint [OF tree_edge.hyps(3,2,4)]
  note fs1 = visit_finished_set [OF tree_edge.hyps(3)]
  note fs2 = edges_finished_set [OF tree_edge.hyps(4)]
  show ?case
  proof (intro allI)
    fix t f h
    let ?tin1 = "stamps_in t f evs1" and ?tout1 = "stamps_out t h evs1"
    let ?tin = "stamps_in (t + ticks evs1) ?tin1 evs2"
    let ?tout = "stamps_out (t + ticks evs1) ?tout1 evs2"
    have "laminar (set (discovered evs1)) ?tin1 ?tout1"
      using tree_edge.IH(1) tree_edge.hyps(2) by blast
    then have 1: "laminar (set (discovered evs1)) ?tin ?tout"
      using dj fs2 by (elim laminar_cong [rotated]) (auto simp: stamps_in_other stamps_out_other)
    have 2: "laminar (set (discovered evs2)) ?tin ?tout"
      using tree_edge.IH(2) by blast
    have 3: "?tout a < ?tin b" if a: "a \<in> set (discovered evs1)" and b: "b \<in> set (discovered evs2)"
      for a b
    proof -
      have "a \<notin> set (finished evs2)" using a dj fs2 by blast
      then have "?tout a = ?tout1 a" by (simp add: stamps_out_other)
      moreover have "?tout1 a < t + ticks evs1"
        using stamps_out_bounds [of a evs1 t h] a fs1 by blast
      moreover have "t + ticks evs1 \<le> ?tin b" using stamps_in_bounds [OF b] by blast
      ultimately show ?thesis by simp
    qed
    have "laminar (set (discovered evs1) \<union> set (discovered evs2)) ?tin ?tout"
      using 1 2 3 by (rule laminar_union)
    then show "laminar
        (set (discovered (OnExamineEdge e # evs1 @ OnTreeEdge e # OnFinishEdge e # evs2)))
        (stamps_in t f (OnExamineEdge e # evs1 @ OnTreeEdge e # OnFinishEdge e # evs2))
        (stamps_out t h (OnExamineEdge e # evs1 @ OnTreeEdge e # OnFinishEdge e # evs2))"
      unfolding tree_edge_trace_stamps by simp
  qed
next
  case (back_edge cm e g es evs2 cm2)
  then show ?case by simp
next
  case (forward_or_cross_edge cm e g es evs2 cm2)
  then show ?case by simp
qed

lemma protocol_reach:
  "visit_protocol g cm v evs cm' \<Longrightarrow> (\<forall>u \<in> set (discovered evs). (v, u) \<in> (succs g)\<^sup>*)"
  "edges_protocol g cm es evs cm' \<Longrightarrow>
     (\<forall>u \<in> set (discovered evs). \<exists>e \<in> set es. (destination e, u) \<in> (succs g)\<^sup>*)"
proof (induction rule: visit_protocol_edges_protocol.inducts)
  case (visit cm v g evs cm1)
  have v: "nat v < length (outgoing_edges g)" "int (nat v) = v"
    using visit.hyps(2) by (auto simp: in_range_def)
  show ?case
  proof
    fix u assume "u \<in> set (discovered (OnDiscoverVertex v # evs @ [OnFinishVertex v]))"
    then consider "u = v" | "u \<in> set (discovered evs)" by auto
    then show "(v, u) \<in> (succs g)\<^sup>*"
    proof cases
      case 1 then show ?thesis by simp
    next
      case 2
      with visit.IH obtain e where e: "e \<in> set (outgoing_edges g ! nat v)"
        "(destination e, u) \<in> (succs g)\<^sup>*" by blast
      have "(v, destination e) \<in> succs g"
        unfolding succs_def using v e(1) by (metis (mono_tags, lifting) mem_Collect_eq)
      then show ?thesis using e(2) by (rule converse_rtrancl_into_rtrancl)
    qed
  qed
next
  case (edges_done g cm)
  show ?case by simp
next
  case (tree_edge cm e g evs1 cm1 es evs2 cm2)
  then show ?case by auto
next
  case (back_edge cm e g es evs2 cm2)
  then show ?case by auto
next
  case (forward_or_cross_edge cm e g es evs2 cm2)
  then show ?case by auto
qed

lemma protocol_contained_reach:
  "visit_protocol g cm v evs cm' \<Longrightarrow> cm ! nat v = kWhite \<longrightarrow>
     (\<forall>t f h. \<forall>a \<in> set (discovered evs). \<forall>u \<in> set (discovered evs).
        stamps_in t f evs a \<le> stamps_in t f evs u \<and> stamps_out t h evs u \<le> stamps_out t h evs a
        \<longrightarrow> (a, u) \<in> (succs g)\<^sup>*)"
  "edges_protocol g cm es evs cm' \<Longrightarrow>
     (\<forall>t f h. \<forall>a \<in> set (discovered evs). \<forall>u \<in> set (discovered evs).
        stamps_in t f evs a \<le> stamps_in t f evs u \<and> stamps_out t h evs u \<le> stamps_out t h evs a
        \<longrightarrow> (a, u) \<in> (succs g)\<^sup>*)"
proof (induction rule: visit_protocol_edges_protocol.inducts)
  case (visit cm v g evs cm1)
  have "cm[nat v := kGray] ! nat v \<noteq> kWhite" using visit.hyps(1) by (simp add: in_range_nat)
  note nd = edges_not_discovered [OF visit.hyps(3) this]
  have whole: "visit_protocol g cm v (OnDiscoverVertex v # evs @ [OnFinishVertex v])
      (cm1[nat v := kBlack])"
    using visit.hyps by (rule visit_protocol_edges_protocol.visit)
  show ?case
  proof (intro impI allI ballI)
    fix t f h a u
    let ?T = "OnDiscoverVertex v # evs @ [OnFinishVertex v]"
    assume a: "a \<in> set (discovered ?T)" and u: "u \<in> set (discovered ?T)"
      and c: "stamps_in t f ?T a \<le> stamps_in t f ?T u \<and> stamps_out t h ?T u \<le> stamps_out t h ?T a"
    show "(a, u) \<in> (succs g)\<^sup>*"
    proof (cases "a = v")
      case True
      then show ?thesis using protocol_reach(1) [OF whole] u by blast
    next
      case False
      with a have a': "a \<in> set (discovered evs)" by simp
      show ?thesis
      proof (cases "u = v")
        case True
        have "t + 1 \<le> stamps_in (t + 1) (f(v := t)) evs a"
          using stamps_in_bounds [OF a'] by blast
        moreover have "stamps_in (t + 1) (f(v := t)) evs v = t"
          using nd(1) by (simp add: stamps_in_other)
        ultimately show ?thesis using c True unfolding visit_trace_stamps by simp
      next
        case u_ne: False
        with u have u': "u \<in> set (discovered evs)" by simp
        from c False u_ne have
          "stamps_in (t + 1) (f(v := t)) evs a \<le> stamps_in (t + 1) (f(v := t)) evs u \<and>
           stamps_out (t + 1) h evs u \<le> stamps_out (t + 1) h evs a"
          unfolding visit_trace_stamps by simp
        with visit.IH a' u' show ?thesis by blast
      qed
    qed
  qed
next
  case (edges_done g cm)
  show ?case by simp
next
  case (tree_edge cm e g evs1 cm1 es evs2 cm2)
  note dj = visit_then_edges_disjoint [OF tree_edge.hyps(3,2,4)]
  note fs1 = visit_finished_set [OF tree_edge.hyps(3)]
  note fs2 = edges_finished_set [OF tree_edge.hyps(4)]
  show ?case
  proof (intro allI ballI impI)
    fix t f h a u
    let ?T = "OnExamineEdge e # evs1 @ OnTreeEdge e # OnFinishEdge e # evs2"
    let ?tin1 = "stamps_in t f evs1" and ?tout1 = "stamps_out t h evs1"
    let ?tin = "stamps_in (t + ticks evs1) ?tin1 evs2"
    let ?tout = "stamps_out (t + ticks evs1) ?tout1 evs2"
    assume a: "a \<in> set (discovered ?T)" and u: "u \<in> set (discovered ?T)"
      and "stamps_in t f ?T a \<le> stamps_in t f ?T u \<and> stamps_out t h ?T u \<le> stamps_out t h ?T a"
    then have c: "?tin a \<le> ?tin u" "?tout u \<le> ?tout a"
      unfolding tree_edge_trace_stamps by simp_all
    have first: "?tin x = ?tin1 x \<and> ?tout x = ?tout1 x \<and> ?tin1 x < t + ticks evs1 \<and>
        ?tout1 x < t + ticks evs1" if "x \<in> set (discovered evs1)" for x
      using that dj fs1 fs2 stamps_in_bounds [of x evs1 t f] stamps_out_bounds [of x evs1 t h]
      by (auto simp: stamps_in_other stamps_out_other)
    have second: "t + ticks evs1 \<le> ?tin x \<and> t + ticks evs1 \<le> ?tout x"
      if "x \<in> set (discovered evs2)" for x
      using that fs2 stamps_in_bounds [of x evs2 "t + ticks evs1" ?tin1]
        stamps_out_bounds [of x evs2 "t + ticks evs1" ?tout1]
      by auto
    consider "a \<in> set (discovered evs1)" "u \<in> set (discovered evs1)"
      | "a \<in> set (discovered evs2)" "u \<in> set (discovered evs2)"
      | "a \<in> set (discovered evs1)" "u \<in> set (discovered evs2)"
      | "a \<in> set (discovered evs2)" "u \<in> set (discovered evs1)"
      using a u by auto
    then show "(a, u) \<in> (succs g)\<^sup>*"
    proof cases
      case 1
      with c first have "?tin1 a \<le> ?tin1 u \<and> ?tout1 u \<le> ?tout1 a" by simp
      with tree_edge.IH(1) tree_edge.hyps(2) 1 show ?thesis by blast
    next
      case 2
      with tree_edge.IH(2) c show ?thesis by blast
    next
      case 3
      with c first [of a] second [of u] show ?thesis by simp
    next
      case 4
      with c first [of u] second [of a] show ?thesis by simp
    qed
  qed
next
  case (back_edge cm e g es evs2 cm2)
  then show ?case by simp
next
  case (forward_or_cross_edge cm e g es evs2 cm2)
  then show ?case by simp
qed

section \<open>Sequences of visits\<close>

lemma visit_good_run:
  assumes "visit_protocol g cm v evs cm'" "cm ! nat v = kWhite"
  shows "good_run g cm evs cm'"
  unfolding good_run_def
  using visit_recolored [OF assms] protocol_discovered_colors(1) [OF assms(1)]
    protocol_changed_discovered(1) [OF assms(1)] protocol_finished(1) [OF assms(1)]
    protocol_distinct(1) [OF assms(1)] protocol_examined(1) [OF assms(1)]
    protocol_laminar(1) [OF assms(1)] protocol_contained_reach(1) [OF assms(1)] assms(2)
  by blast

lemma good_run_Nil: "good_run g cm [] cm"
  by (simp add: good_run_def)

lemma good_run_Start: "good_run g cm evs cm' \<Longrightarrow> good_run g cm (OnStartVertex v # evs) cm'"
  by (simp add: good_run_def)

lemma good_run_Initialize:
  "good_run g cm evs cm' \<Longrightarrow> good_run g cm (map OnInitializeVertex vs @ evs) cm'"
proof (induction vs)
  case Nil
  then show ?case by simp
next
  case (Cons v vs)
  then have "good_run g cm (map OnInitializeVertex vs @ evs) cm'" by simp
  then show ?case by (simp add: good_run_def)
qed

lemma good_run_append:
  assumes 1: "good_run g cm evs1 cm1" and 2: "good_run g cm1 evs2 cm2"
  shows "good_run g cm (evs1 @ evs2) cm2"
proof -
  have rc1: "recolored cm cm1" and rc2: "recolored cm1 cm2"
    using 1 2 by (simp_all add: good_run_def)
  have len: "length cm1 = length cm" using rc1 by (simp add: recolored_def)
  have d1: "\<And>u. u \<in> set (discovered evs1) \<Longrightarrow>
      in_range cm u \<and> cm ! nat u = kWhite \<and> cm1 ! nat u = kBlack"
    using 1 by (simp add: good_run_def)
  have d2: "\<And>u. u \<in> set (discovered evs2) \<Longrightarrow>
      in_range cm1 u \<and> cm1 ! nat u = kWhite \<and> cm2 ! nat u = kBlack"
    using 2 by (simp add: good_run_def)
  have dj: "set (discovered evs1) \<inter> set (discovered evs2) = {}"
    using d1 d2 by (metis Color.distinct(3) disjoint_iff)
  have fs1: "set (finished evs1) = set (discovered evs1)"
    using 1 unfolding good_run_def by (metis set_mset_mset)
  have fs2: "set (finished evs2) = set (discovered evs2)"
    using 2 unfolding good_run_def by (metis set_mset_mset)
  have A: "recolored cm cm2" using rc1 rc2 by (rule recolored_trans)
  have B: "\<forall>u \<in> set (discovered (evs1 @ evs2)).
      in_range cm u \<and> cm ! nat u = kWhite \<and> cm2 ! nat u = kBlack"
  proof
    fix u assume "u \<in> set (discovered (evs1 @ evs2))"
    then consider "u \<in> set (discovered evs1)" | "u \<in> set (discovered evs2)" by auto
    then show "in_range cm u \<and> cm ! nat u = kWhite \<and> cm2 ! nat u = kBlack"
    proof cases
      case 1
      with d1 have *: "in_range cm u" "cm ! nat u = kWhite" "cm1 ! nat u = kBlack" by auto
      have "nat u < length cm1" using *(1) len by (simp add: in_range_nat)
      with recolored_black [OF rc2 this *(3)] * show ?thesis by simp
    next
      case 2
      with d2 have *: "in_range cm1 u" "cm1 ! nat u = kWhite" "cm2 ! nat u = kBlack" by auto
      have r: "in_range cm u" using *(1) by (simp add: recolored_in_range [OF rc1])
      with recolored_white [OF rc1 _ *(2)] * show ?thesis by (simp add: in_range_nat)
    qed
  qed
  have C: "\<forall>i < length cm. cm2 ! i \<noteq> cm ! i \<longrightarrow> int i \<in> set (discovered (evs1 @ evs2))"
    using 1 2 len unfolding good_run_def by auto
  have D: "mset (finished (evs1 @ evs2)) = mset (discovered (evs1 @ evs2))"
    using 1 2 by (simp add: good_run_def)
  have E: "distinct (discovered (evs1 @ evs2))"
    using 1 2 dj by (simp add: good_run_def)
  have F: "mset (examined (evs1 @ evs2)) =
      mset (concat (map (\<lambda>u. outgoing_edges g ! nat u) (discovered (evs1 @ evs2))))"
    using 1 2 by (simp add: good_run_def)
  have first: "stamps_in (t + ticks evs1) (stamps_in t f evs1) evs2 x = stamps_in t f evs1 x \<and>
      stamps_out (t + ticks evs1) (stamps_out t h evs1) evs2 x = stamps_out t h evs1 x \<and>
      stamps_in t f evs1 x < t + ticks evs1 \<and> stamps_out t h evs1 x < t + ticks evs1"
    if "x \<in> set (discovered evs1)" for x t f h
    using that dj fs1 fs2 stamps_in_bounds [of x evs1 t f] stamps_out_bounds [of x evs1 t h]
    by (auto simp: stamps_in_other stamps_out_other)
  have second: "t + ticks evs1 \<le> stamps_in (t + ticks evs1) f' evs2 x \<and>
      t + ticks evs1 \<le> stamps_out (t + ticks evs1) h' evs2 x"
    if "x \<in> set (discovered evs2)" for x t f' h'
    using that fs2 stamps_in_bounds [of x evs2 "t + ticks evs1" f']
      stamps_out_bounds [of x evs2 "t + ticks evs1" h']
    by auto
  have G: "\<forall>t f h. laminar (set (discovered (evs1 @ evs2))) (stamps_in t f (evs1 @ evs2))
      (stamps_out t h (evs1 @ evs2))"
  proof (intro allI)
    fix t f h
    let ?tin1 = "stamps_in t f evs1" and ?tout1 = "stamps_out t h evs1"
    let ?tin = "stamps_in (t + ticks evs1) ?tin1 evs2"
    let ?tout = "stamps_out (t + ticks evs1) ?tout1 evs2"
    have "laminar (set (discovered evs1)) ?tin1 ?tout1"
      using 1 by (simp add: good_run_def)
    then have a: "laminar (set (discovered evs1)) ?tin ?tout"
      using first by (elim laminar_cong [rotated]) auto
    have b: "laminar (set (discovered evs2)) ?tin ?tout"
      using 2 by (simp add: good_run_def)
    have c: "?tout a < ?tin b" if "a \<in> set (discovered evs1)" "b \<in> set (discovered evs2)" for a b
      using first [OF that(1), of t f h] second [OF that(2), of t ?tin1 ?tout1] by simp
    have "laminar (set (discovered evs1) \<union> set (discovered evs2)) ?tin ?tout"
      using a b c by (rule laminar_union)
    then show "laminar (set (discovered (evs1 @ evs2))) (stamps_in t f (evs1 @ evs2))
      (stamps_out t h (evs1 @ evs2))"
      by simp
  qed
  have H: "\<forall>t f h. \<forall>a \<in> set (discovered (evs1 @ evs2)). \<forall>u \<in> set (discovered (evs1 @ evs2)).
        stamps_in t f (evs1 @ evs2) a \<le> stamps_in t f (evs1 @ evs2) u \<and>
        stamps_out t h (evs1 @ evs2) u \<le> stamps_out t h (evs1 @ evs2) a
        \<longrightarrow> (a, u) \<in> (succs g)\<^sup>*"
  proof (intro allI ballI impI)
    fix t f h a u
    let ?tin1 = "stamps_in t f evs1" and ?tout1 = "stamps_out t h evs1"
    let ?tin = "stamps_in (t + ticks evs1) ?tin1 evs2"
    let ?tout = "stamps_out (t + ticks evs1) ?tout1 evs2"
    assume a: "a \<in> set (discovered (evs1 @ evs2))" and u: "u \<in> set (discovered (evs1 @ evs2))"
      and "stamps_in t f (evs1 @ evs2) a \<le> stamps_in t f (evs1 @ evs2) u \<and>
        stamps_out t h (evs1 @ evs2) u \<le> stamps_out t h (evs1 @ evs2) a"
    then have c: "?tin a \<le> ?tin u" "?tout u \<le> ?tout a" by simp_all
    consider "a \<in> set (discovered evs1)" "u \<in> set (discovered evs1)"
      | "a \<in> set (discovered evs2)" "u \<in> set (discovered evs2)"
      | "a \<in> set (discovered evs1)" "u \<in> set (discovered evs2)"
      | "a \<in> set (discovered evs2)" "u \<in> set (discovered evs1)"
      using a u by auto
    then show "(a, u) \<in> (succs g)\<^sup>*"
    proof cases
      case 1
      with c first [of a t f h] first [of u t f h]
      have "?tin1 a \<le> ?tin1 u \<and> ?tout1 u \<le> ?tout1 a" by simp
      with \<open>good_run g cm evs1 cm1\<close> 1 show ?thesis unfolding good_run_def by blast
    next
      case 2
      with \<open>good_run g cm1 evs2 cm2\<close> c show ?thesis unfolding good_run_def by blast
    next
      case 3
      with c first [of a t f h] second [of u t ?tin1 ?tout1] show ?thesis by simp
    next
      case 4
      with c first [of u t f h] second [of a t ?tin1 ?tout1] show ?thesis by simp
    qed
  qed
  show ?thesis unfolding good_run_def using A B C D E F G H by blast
qed

lemma sweep_good_run: "sweep_protocol g cm vs evs cm' \<Longrightarrow> good_run g cm evs cm'"
proof (induction rule: sweep_protocol.induct)
  case (sweep_done g cm)
  show ?case by (rule good_run_Nil)
next
  case (sweep_visit cm v g evs1 cm1 vs evs2 cm2)
  have "good_run g cm (evs1 @ evs2) cm2"
    using visit_good_run [OF sweep_visit.hyps(3,2)] sweep_visit.IH by (rule good_run_append)
  then show ?case by (rule good_run_Start)
next
  case (sweep_skip cm v g vs evs2 cm2)
  then show ?case by simp
qed

lemma sweep_no_white:
  "sweep_protocol g cm vs evs cm' \<Longrightarrow> \<forall>v \<in> set vs. cm' ! nat v \<noteq> kWhite"
proof (induction rule: sweep_protocol.induct)
  case (sweep_done g cm)
  show ?case by simp
next
  case (sweep_visit cm v g evs1 cm1 vs evs2 cm2)
  have rc: "recolored cm cm1" using sweep_visit.hyps(3,2) by (rule visit_recolored)
  have "v \<in> set (discovered evs1)"
    using sweep_visit.hyps(3) by (auto elim: visit_protocol.cases)
  then have "cm1 ! nat v = kBlack"
    using protocol_discovered_colors(1) [OF sweep_visit.hyps(3)] sweep_visit.hyps(2) by blast
  moreover have "recolored cm1 cm2" using sweep_good_run [OF sweep_visit.hyps(4)]
    by (simp add: good_run_def)
  moreover have "nat v < length cm1" using sweep_visit.hyps(1) rc
    by (simp add: in_range_nat recolored_def)
  ultimately have "cm2 ! nat v = kBlack" by (metis recolored_black)
  with sweep_visit.IH show ?case by simp
next
  case (sweep_skip cm v g vs evs2 cm2)
  have "recolored cm cm2" using sweep_good_run [OF sweep_skip.hyps(3)]
    by (simp add: good_run_def)
  moreover have "nat v < length cm" using sweep_skip.hyps(1) by (simp add: in_range_nat)
  ultimately have "cm2 ! nat v \<noteq> kWhite" using sweep_skip.hyps(2) by (metis recolored_white)
  with sweep_skip.IH show ?case by simp
qed

section \<open>The sweep and the whole traversal\<close>

lemma initialize_step_white:
  "initialize_step Colormap_class vis (replicate n kWhite, s) v = Inr st \<longleftrightarrow>
     in_range (replicate n kWhite) v \<and>
     (\<exists>s1. InitializeVertex vis v s = Inr s1 \<and> st = (replicate n kWhite, s1))"
proof -
  have upd: "(replicate n kWhite)[nat v := kWhite] = replicate n kWhite"
    by (cases "nat v < n") (auto simp: list_eq_iff_nth_eq nth_list_update)
  show ?thesis
    by (auto simp: initialize_step_def and_then_eq_Inr Colormap_SetColor_def vec_set_eq_Inr upd)
qed

lemma initialize_loop:
  "for_each (initialize_step Colormap_class vis) (replicate n kWhite, s) vs = Inr (cm1, s1) \<longleftrightarrow>
     (\<forall>v \<in> set vs. in_range (replicate n kWhite) v) \<and> cm1 = replicate n kWhite \<and>
     replay vis (map OnInitializeVertex vs) s = Inr s1"
proof (induction vs arbitrary: s)
  case Nil
  show ?case by auto
next
  case (Cons v vs)
  show ?case
    by (auto simp: and_then_eq_Inr initialize_step_white Cons.IH)
qed

lemma sweep_sound:
  "for_each (sweep_step Colormap_class n g vis) (cm, s) vs = Inr (cm', s') \<Longrightarrow>
   \<exists>evs. sweep_protocol g cm vs evs cm' \<and> replay vis evs s = Inr s'"
proof (induction vs arbitrary: cm s)
  case Nil
  then show ?case by (auto intro: sweep_done)
next
  case (Cons v vs)
  from Cons.prems obtain cm1 s1 where
    step: "sweep_step Colormap_class n g vis (cm, s) v = Inr (cm1, s1)" and
    rest: "for_each (sweep_step Colormap_class n g vis) (cm1, s1) vs = Inr (cm', s')"
    by (auto simp: and_then_eq_Inr)
  from Cons.IH [OF rest] obtain evs2 where
    evs2: "sweep_protocol g cm1 vs evs2 cm'" "replay vis evs2 s1 = Inr s'"
    by blast
  from step have rng: "in_range cm v"
    by (auto simp: sweep_step_def and_then_eq_Inr Colormap_GetColor_def vec_get_eq_Inr)
  show ?case
  proof (cases "cm ! nat v = kWhite")
    case True
    with step rng obtain sa where sa: "StartVertex vis v s = Inr sa"
      and v: "DepthFirstSearchVisit Colormap_class n g vis (cm, sa) v = Inr (cm1, s1)"
      by (auto simp: sweep_step_def and_then_eq_Inr Colormap_GetColor_def vec_get_eq_Inr)
    from visit_sound [OF v] obtain evs1 where
      evs1: "visit_protocol g cm v evs1 cm1" "replay vis evs1 sa = Inr s1"
      by blast
    have "sweep_protocol g cm (v # vs) (OnStartVertex v # evs1 @ evs2) cm'"
      using rng True evs1(1) evs2(1) by (rule sweep_visit)
    moreover have "replay vis (OnStartVertex v # evs1 @ evs2) s = Inr s'"
      using sa evs1(2) evs2(2) by (simp add: replay_append)
    ultimately show ?thesis by blast
  next
    case False
    with step rng have "cm1 = cm" "s1 = s"
      by (auto simp: sweep_step_def and_then_eq_Inr Colormap_GetColor_def vec_get_eq_Inr)
    with rng False evs2 show ?thesis by (blast intro: sweep_skip)
  qed
qed

lemma sweep_complete:
  "sweep_protocol g cm vs evs cm' \<Longrightarrow> white_count cm \<le> n \<Longrightarrow> replay vis evs s = Inr s' \<Longrightarrow>
   for_each (sweep_step Colormap_class n g vis) (cm, s) vs = Inr (cm', s')"
proof (induction arbitrary: s rule: sweep_protocol.induct)
  case (sweep_done g cm)
  then show ?case by simp
next
  case (sweep_visit cm v g evs1 cm1 vs evs2 cm2)
  from sweep_visit.prems(2) obtain sa sb where x: "StartVertex vis v s = Inr sa"
    and r1: "replay vis evs1 sa = Inr sb" and r2: "replay vis evs2 sb = Inr s'"
    by (auto simp: replay_eq_Inr_append and_then_eq_Inr)
  have v: "DepthFirstSearchVisit Colormap_class n g vis (cm, sa) v = Inr (cm1, sb)"
    using protocol_complete(1) [OF sweep_visit.hyps(3), where vis = vis]
      sweep_visit.hyps(2) sweep_visit.prems(1) r1
    by blast
  have "white_count cm1 \<le> n"
    using recolored_white_count [OF visit_recolored [OF sweep_visit.hyps(3,2)]]
      sweep_visit.prems(1) by simp
  from sweep_visit.IH [OF this r2] have
    "for_each (sweep_step Colormap_class n g vis) (cm1, sb) vs = Inr (cm2, s')" .
  moreover have "sweep_step Colormap_class n g vis (cm, s) v = Inr (cm1, sb)"
    using sweep_visit.hyps(1,2) x v by (simp add: sweep_step_def Colormap_GetColor_def vec_get_in_range)
  ultimately show ?case by simp
next
  case (sweep_skip cm v g vs evs2 cm2)
  from sweep_skip.IH [OF sweep_skip.prems] have
    "for_each (sweep_step Colormap_class n g vis) (cm, s) vs = Inr (cm2, s')" .
  moreover have "sweep_step Colormap_class n g vis (cm, s) v = Inr (cm, s)"
    using sweep_skip.hyps(1,2) by (simp add: sweep_step_def Colormap_GetColor_def vec_get_in_range)
  ultimately show ?case by simp
qed

lemma white_count_le_length: "white_count cm \<le> length cm"
proof -
  have "card {i. i < length cm \<and> cm ! i = kWhite} \<le> card {i. i < length cm}"
    by (intro card_mono) auto
  then show ?thesis by (simp add: white_count_def)
qed

lemma sweep_exists:
  assumes wf: "wf_graph g"
  shows "length cm = length (outgoing_edges g) \<Longrightarrow> \<forall>v \<in> set vs. in_range cm v \<Longrightarrow>
         \<exists>evs cm'. sweep_protocol g cm vs evs cm'"
proof (induction vs arbitrary: cm)
  case Nil
  show ?case by (blast intro: sweep_done)
next
  case (Cons v vs)
  have rng: "in_range cm v" using Cons.prems(2) by simp
  show ?case
  proof (cases "cm ! nat v = kWhite")
    case True
    from visit_exists [OF wf Cons.prems(1) rng True order_refl] obtain evs1 cm1
      where v: "visit_protocol g cm v evs1 cm1" by blast
    have rc: "recolored cm cm1" using v True by (rule visit_recolored)
    have "length cm1 = length (outgoing_edges g)" using rc Cons.prems(1) by (simp add: recolored_def)
    moreover have "\<forall>v \<in> set vs. in_range cm1 v"
      using Cons.prems(2) by (simp add: recolored_in_range [OF rc])
    ultimately obtain evs2 cm2 where "sweep_protocol g cm1 vs evs2 cm2"
      using Cons.IH by blast
    with rng True v show ?thesis by (blast intro: sweep_visit)
  next
    case False
    from Cons.IH [OF Cons.prems(1)] Cons.prems(2) obtain evs2 cm2
      where "sweep_protocol g cm vs evs2 cm2" by auto
    with rng False show ?thesis by (blast intro: sweep_skip)
  qed
qed

lemma traversal_sound:
  assumes "DepthFirstSearch_run Colormap_class n g vis s start = Inr (cm', s')"
  shows "\<exists>evs. traversal_protocol g start evs cm' \<and> replay vis evs s = Inr s'"
proof -
  let ?V = "length (vertices g)"
  from assms obtain s1 st2 where
    init: "\<forall>v \<in> set (vertices g). in_range (replicate ?V kWhite) v"
      "replay vis (map OnInitializeVertex (vertices g)) s = Inr s1" and
    mid: "(if start \<noteq> - 1 then
             and_then (StartVertex vis start s1) (\<lambda>vs2.
               DepthFirstSearchVisit Colormap_class n g vis (replicate ?V kWhite, vs2) start)
           else Inr (replicate ?V kWhite, s1)) = Inr st2" and
    sw: "for_each (sweep_step Colormap_class n g vis) st2 (vertices g) = Inr (cm', s')"
    unfolding DepthFirstSearch_run_def GetVertices_def Colormap_class_simps Colormap_new_def
    by (auto simp: and_then_eq_Inr initialize_loop)
  obtain cm2 s2 where st2: "st2 = (cm2, s2)" by (cases st2)
  from sweep_sound [OF sw [unfolded st2]] obtain evs2 where
    evs2: "sweep_protocol g cm2 (vertices g) evs2 cm'" "replay vis evs2 s2 = Inr s'"
    by blast
  have rng: "\<forall>v \<in> set (vertices g). in_range (vertices g) v"
    using init(1) by (simp add: in_range_def)
  show ?thesis
  proof (cases "start = - 1")
    case True
    with mid st2 have "cm2 = replicate ?V kWhite" "s2 = s1" by simp_all
    with evs2 rng init(2) True show ?thesis
      by (auto intro!: exI [of _ "map OnInitializeVertex (vertices g) @ evs2"]
          without_start simp: replay_append)
  next
    case False
    with mid st2 obtain sa where sa: "StartVertex vis start s1 = Inr sa"
      and v: "DepthFirstSearchVisit Colormap_class n g vis (replicate ?V kWhite, sa) start = Inr (cm2, s2)"
      by (auto simp: and_then_eq_Inr)
    from visit_sound [OF v] obtain evs1 where
      evs1: "visit_protocol g (replicate ?V kWhite) start evs1 cm2" "replay vis evs1 sa = Inr s2"
      by blast
    have "traversal_protocol g start
        (map OnInitializeVertex (vertices g) @ OnStartVertex start # evs1 @ evs2) cm'"
      using False rng evs1(1) evs2(1) by (rule with_start)
    moreover have "replay vis
        (map OnInitializeVertex (vertices g) @ OnStartVertex start # evs1 @ evs2) s = Inr s'"
      using init(2) sa evs1(2) evs2(2) by (simp add: replay_append)
    ultimately show ?thesis by blast
  qed
qed

lemma white_count_replicate: "white_count (replicate n kWhite) = n"
proof -
  have "{i. i < length (replicate n kWhite) \<and> replicate n kWhite ! i = kWhite} = {..<n}"
    by auto
  then show ?thesis by (simp add: white_count_def)
qed

lemma traversal_complete:
  assumes "traversal_protocol g start evs cm'" "length (vertices g) \<le> n"
    "replay vis evs s = Inr s'"
  shows "DepthFirstSearch_run Colormap_class n g vis s start = Inr (cm', s')"
  using assms
proof (induction rule: traversal_protocol.induct)
  case (with_start start g evs1 cm1 evs2 cm2)
  let ?V = "length (vertices g)"
  from with_start.prems(2) obtain s1 sa s2 where
    i: "replay vis (map OnInitializeVertex (vertices g)) s = Inr s1" and
    x: "StartVertex vis start s1 = Inr sa" and r1: "replay vis evs1 sa = Inr s2" and
    r2: "replay vis evs2 s2 = Inr s'"
    by (auto simp: replay_eq_Inr_append and_then_eq_Inr)
  have rng: "in_range (replicate ?V kWhite) start"
    using with_start.hyps(3) by (auto elim: visit_protocol.cases)
  then have w: "replicate ?V kWhite ! nat start = kWhite"
    by (auto simp: in_range_def)
  have init: "for_each (initialize_step Colormap_class vis) (replicate ?V kWhite, s) (vertices g)
      = Inr (replicate ?V kWhite, s1)"
    using with_start.hyps(2) i by (simp add: initialize_loop in_range_def)
  have v: "DepthFirstSearchVisit Colormap_class n g vis (replicate ?V kWhite, sa) start = Inr (cm1, s2)"
    using protocol_complete(1) [OF with_start.hyps(3), where vis = vis] w with_start.prems(1) r1
    by (simp add: white_count_replicate)
  have "white_count cm1 \<le> n"
    using recolored_white_count [OF visit_recolored [OF with_start.hyps(3) w]]
      with_start.prems(1) by (simp add: white_count_replicate)
  from sweep_complete [OF with_start.hyps(4) this r2]
  have "for_each (sweep_step Colormap_class n g vis) (cm1, s2) (vertices g) = Inr (cm2, s')" .
  with init x v with_start.hyps(1) show ?case
    by (simp add: DepthFirstSearch_run_def GetVertices_def Colormap_new_def)
next
  case (without_start g evs2 cm2)
  let ?V = "length (vertices g)"
  from without_start.prems(2) obtain s1 where
    i: "replay vis (map OnInitializeVertex (vertices g)) s = Inr s1" and
    r2: "replay vis evs2 s1 = Inr s'"
    by (auto simp: replay_eq_Inr_append and_then_eq_Inr)
  have init: "for_each (initialize_step Colormap_class vis) (replicate ?V kWhite, s) (vertices g)
      = Inr (replicate ?V kWhite, s1)"
    using without_start.hyps(1) i by (simp add: initialize_loop in_range_def)
  have "white_count (replicate ?V kWhite) \<le> n"
    using without_start.prems(1) by (simp add: white_count_replicate)
  from sweep_complete [OF without_start.hyps(2) this r2]
  have "for_each (sweep_step Colormap_class n g vis) (replicate ?V kWhite, s1) (vertices g) = Inr (cm2, s')" .
  with init show ?case
    by (simp add: DepthFirstSearch_run_def GetVertices_def Colormap_new_def)
qed

lemma wf_graph_in_range:
  assumes "wf_graph g"
  shows "length (vertices g) = length (outgoing_edges g)"
    "\<forall>v \<in> set (vertices g). in_range (vertices g) v"
proof -
  show 1: "length (vertices g) = length (outgoing_edges g)"
    using wf_graph_vertices [OF assms] by (metis length_map length_upt minus_nat.diff_0)
  show "\<forall>v \<in> set (vertices g). in_range (vertices g) v"
  proof
    fix v assume "v \<in> set (vertices g)"
    then have "v \<in> set (map int [0..<length (outgoing_edges g)])"
      using wf_graph_vertices [OF assms] by simp
    then show "in_range (vertices g) v" unfolding in_range_def 1 by auto
  qed
qed

lemma traversal_exists:
  assumes wf: "wf_graph g" and start: "start = - 1 \<or> in_range (vertices g) start"
  shows "\<exists>evs cm'. traversal_protocol g start evs cm'"
proof -
  let ?V = "length (vertices g)"
  note V = wf_graph_in_range [OF wf]
  have len: "length (replicate ?V kWhite) = length (outgoing_edges g)" using V(1) by simp
  show ?thesis
  proof (cases "start = - 1")
    case True
    have "\<forall>v \<in> set (vertices g). in_range (replicate ?V kWhite) v"
      using V(2) by (simp add: in_range_def)
    from sweep_exists [OF wf len this] True V(2) show ?thesis
      by (blast intro: without_start)
  next
    case False
    with start have rng: "in_range (replicate ?V kWhite) start" by (simp add: in_range_def)
    then have w: "replicate ?V kWhite ! nat start = kWhite" by (auto simp: in_range_def)
    from visit_exists [OF wf len rng w order_refl] obtain evs1 cm1 where
      v: "visit_protocol g (replicate ?V kWhite) start evs1 cm1" by blast
    have rc: "recolored (replicate ?V kWhite) cm1" using v w by (rule visit_recolored)
    have "length cm1 = length (outgoing_edges g)" using rc len by (simp add: recolored_def)
    moreover have "\<forall>v \<in> set (vertices g). in_range cm1 v"
      using V(2) rc by (simp add: in_range_def recolored_def)
    ultimately obtain evs2 cm2 where "sweep_protocol g cm1 (vertices g) evs2 cm2"
      using sweep_exists [OF wf] by blast
    with False V(2) v show ?thesis by (blast intro: with_start)
  qed
qed

section \<open>The recording visitor and the timestamp visitor\<close>

lemma callback_recording: "callback recording_visitor ev tr = Inr (tr @ [ev])"
  by (cases ev) (simp_all add: recording_visitor_def)

lemma replay_recording: "replay recording_visitor evs tr = Inr (tr @ evs)"
  by (induction evs arbitrary: tr) (simp_all add: callback_recording)

lemma time_callbacks:
  "InitializeVertex time_dfs_visitor v s = Inr s"
  "StartVertex time_dfs_visitor v s = Inr s"
  "ExamineEdge time_dfs_visitor e s = Inr s"
  "TreeEdge time_dfs_visitor e s = Inr s"
  "BackEdge time_dfs_visitor e s = Inr s"
  "ForwardOrCrossEdge time_dfs_visitor e s = Inr s"
  "FinishEdge time_dfs_visitor e s = Inr s"
  "in_range (time_in s) v \<Longrightarrow> timer s < INT_MAX \<Longrightarrow> DiscoverVertex time_dfs_visitor v s =
     Inr (s\<lparr>timer := timer s + 1, time_in := (time_in s)[nat v := timer s]\<rparr>)"
  "in_range (time_out s) v \<Longrightarrow> timer s < INT_MAX \<Longrightarrow> FinishVertex time_dfs_visitor v s =
     Inr (s\<lparr>timer := timer s + 1, time_out := (time_out s)[nat v := timer s]\<rparr>)"
  by (simp_all add: time_dfs_visitor_def IDFSVisitor_default_def Time_DiscoverVertex_def
      Time_FinishVertex_def vec_set_in_range post_increment_def)

lemma post_increment_overflow:
  "timer s = INT_MAX \<Longrightarrow> DiscoverVertex time_dfs_visitor v s = Inl SignedOverflow"
  "timer s = INT_MAX \<Longrightarrow> FinishVertex time_dfs_visitor v s = Inl SignedOverflow"
  by (simp_all add: time_dfs_visitor_def IDFSVisitor_default_def Time_DiscoverVertex_def
      Time_FinishVertex_def post_increment_def)

lemma replay_time:
  assumes "\<forall>u \<in> set (discovered evs). in_range (time_in s) u"
    "\<forall>u \<in> set (finished evs). in_range (time_out s) u"
    "\<forall>i < length (time_in s). f (int i) = time_in s ! i"
    "\<forall>i < length (time_out s). h (int i) = time_out s ! i"
    "timer s + ticks evs \<le> INT_MAX"
  shows "\<exists>s'. replay time_dfs_visitor evs s = Inr s' \<and> timer s' = timer s + ticks evs \<and>
    length (time_in s') = length (time_in s) \<and> length (time_out s') = length (time_out s) \<and>
    (\<forall>i < length (time_in s). time_in s' ! i = stamps_in (timer s) f evs (int i)) \<and>
    (\<forall>i < length (time_out s). time_out s' ! i = stamps_out (timer s) h evs (int i))"
  using assms
proof (induction evs arbitrary: s f h)
  case Nil
  then show ?case by simp
next
  case (Cons ev evs)
  show ?case
  proof (cases ev)
    case (OnDiscoverVertex v)
    let ?s1 = "s\<lparr>timer := timer s + 1, time_in := (time_in s)[nat v := timer s]\<rparr>"
    have v: "in_range (time_in s) v" using Cons.prems(1) OnDiscoverVertex by simp
    have t: "timer s < INT_MAX"
      using Cons.prems(5) ticks_nonneg [of evs] by (simp add: OnDiscoverVertex)
    have "\<forall>i < length (time_in ?s1). (f(v := timer s)) (int i) = time_in ?s1 ! i"
      using Cons.prems(3) v by (auto simp: nth_list_update in_range_def)
    from Cons.IH [of ?s1 "f(v := timer s)" h, OF _ _ this] Cons.prems(1,2,4,5) OnDiscoverVertex
    show ?thesis by (simp add: time_callbacks(8) [OF v t] add.assoc fun_upd_def)
  next
    case (OnFinishVertex v)
    let ?s1 = "s\<lparr>timer := timer s + 1, time_out := (time_out s)[nat v := timer s]\<rparr>"
    have v: "in_range (time_out s) v" using Cons.prems(2) OnFinishVertex by simp
    have t: "timer s < INT_MAX"
      using Cons.prems(5) ticks_nonneg [of evs] by (simp add: OnFinishVertex)
    have "\<forall>i < length (time_out ?s1). (h(v := timer s)) (int i) = time_out ?s1 ! i"
      using Cons.prems(4) v by (auto simp: nth_list_update in_range_def)
    from Cons.IH [of ?s1 f "h(v := timer s)", OF _ _ _ this] Cons.prems(1,2,3,5) OnFinishVertex
    show ?thesis by (simp add: time_callbacks(9) [OF v t] add.assoc fun_upd_def)
  next
    case (OnInitializeVertex v)
    from Cons.IH [of s f h] Cons.prems OnInitializeVertex show ?thesis
      by (simp add: time_callbacks(1-7))
  next
    case (OnStartVertex v)
    from Cons.IH [of s f h] Cons.prems OnStartVertex show ?thesis by (simp add: time_callbacks(1-7))
  next
    case (OnExamineEdge e)
    from Cons.IH [of s f h] Cons.prems OnExamineEdge show ?thesis by (simp add: time_callbacks(1-7))
  next
    case (OnTreeEdge e)
    from Cons.IH [of s f h] Cons.prems OnTreeEdge show ?thesis by (simp add: time_callbacks(1-7))
  next
    case (OnBackEdge e)
    from Cons.IH [of s f h] Cons.prems OnBackEdge show ?thesis by (simp add: time_callbacks(1-7))
  next
    case (OnForwardOrCrossEdge e)
    from Cons.IH [of s f h] Cons.prems OnForwardOrCrossEdge show ?thesis
      by (simp add: time_callbacks(1-7))
  next
    case (OnFinishEdge e)
    from Cons.IH [of s f h] Cons.prems OnFinishEdge show ?thesis by (simp add: time_callbacks(1-7))
  qed
qed

lemma traversal_good_run:
  assumes "traversal_protocol g start evs cm'"
  shows "good_run g (replicate (length (vertices g)) kWhite) evs cm'"
    "\<forall>v \<in> set (vertices g). cm' ! nat v \<noteq> kWhite"
  using assms
proof (induction rule: traversal_protocol.induct)
  case (with_start start g evs1 cm1 evs2 cm2)
  let ?cm0 = "replicate (length (vertices g)) kWhite"
  have rng: "in_range ?cm0 start"
    using with_start.hyps(3) by (auto elim: visit_protocol.cases)
  then have w: "?cm0 ! nat start = kWhite" by (auto simp: in_range_def)
  have "good_run g ?cm0 (evs1 @ evs2) cm2"
    using visit_good_run [OF with_start.hyps(3) w] sweep_good_run [OF with_start.hyps(4)]
    by (rule good_run_append)
  then have "good_run g ?cm0 (OnStartVertex start # evs1 @ evs2) cm2"
    by (rule good_run_Start)
  then show "good_run g ?cm0
      (map OnInitializeVertex (vertices g) @ OnStartVertex start # evs1 @ evs2) cm2"
    by (rule good_run_Initialize)
  show "\<forall>v \<in> set (vertices g). cm2 ! nat v \<noteq> kWhite"
    using with_start.hyps(4) by (rule sweep_no_white)
next
  case (without_start g evs2 cm2)
  show "good_run g (replicate (length (vertices g)) kWhite)
      (map OnInitializeVertex (vertices g) @ evs2) cm2"
    using sweep_good_run [OF without_start.hyps(2)] by (rule good_run_Initialize)
  show "\<forall>v \<in> set (vertices g). cm2 ! nat v \<noteq> kWhite"
    using without_start.hyps(2) by (rule sweep_no_white)
qed

lemma traversal_covers:
  assumes wf: "wf_graph g" and tr: "traversal_protocol g start evs cm'"
  shows "set (discovered evs) = set (vertices g)" "distinct (discovered evs)"
    "set (finished evs) = set (vertices g)" "distinct (finished evs)"
    "length cm' = length (vertices g)" "\<forall>i < length (vertices g). cm' ! i = kBlack"
    "ticks evs = 2 * int (length (vertices g))"
proof -
  let ?V = "length (vertices g)"
  let ?cm0 = "replicate ?V kWhite"
  note gr = traversal_good_run [OF tr]
  have vs: "vertices g = map int [0..<?V]"
    using wf_graph_vertices [OF wf] wf_graph_in_range(1) [OF wf] by simp
  have rc: "recolored ?cm0 cm'" using gr(1) by (simp add: good_run_def)
  then show len: "length cm' = ?V" by (simp add: recolored_def)
  have nw: "cm' ! i \<noteq> kWhite" if "i < ?V" for i
  proof -
    have "int i \<in> set (vertices g)" using that by (subst vs) simp
    with gr(2) show ?thesis by fastforce
  qed
  show blk: "\<forall>i < ?V. cm' ! i = kBlack"
    using rc nw unfolding recolored_def by (metis length_replicate nth_replicate)
  have sub1: "set (discovered evs) \<subseteq> set (vertices g)"
  proof
    fix u assume "u \<in> set (discovered evs)"
    with gr(1) have "in_range ?cm0 u" by (simp add: good_run_def)
    then have "u = int (nat u)" "nat u < ?V" by (auto simp: in_range_def)
    then show "u \<in> set (vertices g)" by (subst vs) (metis atLeast0LessThan imageI lessThan_iff set_map set_upt)
  qed
  have sub2: "set (vertices g) \<subseteq> set (discovered evs)"
  proof
    fix u assume "u \<in> set (vertices g)"
    then obtain i where i: "u = int i" "i < ?V" by (subst (asm) vs) auto
    with nw have "cm' ! i \<noteq> ?cm0 ! i" by simp
    with gr(1) i show "u \<in> set (discovered evs)" by (simp add: good_run_def)
  qed
  from sub1 sub2 show d: "set (discovered evs) = set (vertices g)" by blast
  show dd: "distinct (discovered evs)" using gr(1) by (simp add: good_run_def)
  have m: "mset (finished evs) = mset (discovered evs)" using gr(1) by (simp add: good_run_def)
  then show "set (finished evs) = set (vertices g)" using d by (metis set_mset_mset)
  show "distinct (finished evs)" using mset_eq_imp_distinct_iff [OF m] dd by simp
  have "distinct (vertices g)" by (subst vs) (simp add: distinct_map)
  then have "length (discovered evs) = ?V"
    using d dd by (metis distinct_card)
  moreover have "length (finished evs) = length (discovered evs)"
    using m by (metis size_mset)
  ultimately show "ticks evs = 2 * int ?V" by (simp add: ticks_count)
qed

lemma DepthFirstSearch_of_run:
  "DepthFirstSearch_run Colormap_class depth g vis s start = Inr (cm', s') \<Longrightarrow>
   DepthFirstSearch Colormap_class depth g vis s start = Inr s'"
  by (simp add: DepthFirstSearch_def)

lemma traversal_stamps:
  assumes wf: "wf_graph g" and tr: "traversal_protocol g start evs cm'"
  shows "laminar (set (vertices g)) (stamps_in t f evs) (stamps_out t h evs)"
    "\<forall>u \<in> set (vertices g). t \<le> stamps_in t f evs u \<and>
       stamps_out t h evs u < t + 2 * int (length (vertices g))"
proof -
  note cov = traversal_covers [OF wf tr]
  show "laminar (set (vertices g)) (stamps_in t f evs) (stamps_out t h evs)"
    using traversal_good_run(1) [OF tr] cov(1) unfolding good_run_def by metis
  show "\<forall>u \<in> set (vertices g). t \<le> stamps_in t f evs u \<and>
       stamps_out t h evs u < t + 2 * int (length (vertices g))"
    using stamps_in_bounds [of _ evs t f] stamps_out_bounds [of _ evs t h] cov(1,3,7) by auto
qed

lemma traversal_timestamps:
  assumes wf: "wf_graph g" and start: "start = - 1 \<or> in_range (vertices g) start"
    and depth: "length (vertices g) \<le> depth"
    and len: "length (time_in s) = length (vertices g)" "length (time_out s) = length (vertices g)"
    and ovf: "timer s + 2 * int (length (vertices g)) \<le> INT_MAX"
  shows "\<exists>evs cm' tv. traversal_protocol g start evs cm' \<and>
    DepthFirstSearch_run Colormap_class depth g time_dfs_visitor s start = Inr (cm', tv) \<and>
    timer tv = timer s + 2 * int (length (vertices g)) \<and>
    length (time_in tv) = length (vertices g) \<and> length (time_out tv) = length (vertices g) \<and>
    (\<forall>i < length (vertices g).
       time_in tv ! i = stamps_in (timer s) (\<lambda>u. time_in s ! nat u) evs (int i) \<and>
       time_out tv ! i = stamps_out (timer s) (\<lambda>u. time_out s ! nat u) evs (int i))"
proof -
  from traversal_exists [OF wf start] obtain evs cm' where
    tr: "traversal_protocol g start evs cm'" by blast
  note cov = traversal_covers [OF wf tr]
  note V = wf_graph_in_range [OF wf]
  have "\<forall>u \<in> set (discovered evs). in_range (time_in s) u"
    using cov(1) V(2) len(1) by (simp add: in_range_def)
  moreover have "\<forall>u \<in> set (finished evs). in_range (time_out s) u"
    using cov(3) V(2) len(2) by (simp add: in_range_def)
  moreover have "timer s + ticks evs \<le> INT_MAX" using cov(7) ovf by simp
  ultimately obtain tv where tv: "replay time_dfs_visitor evs s = Inr tv"
    "timer tv = timer s + ticks evs"
    "length (time_in tv) = length (time_in s)" "length (time_out tv) = length (time_out s)"
    "\<forall>i < length (time_in s). time_in tv ! i
        = stamps_in (timer s) (\<lambda>u. time_in s ! nat u) evs (int i)"
    "\<forall>i < length (time_out s). time_out tv ! i
        = stamps_out (timer s) (\<lambda>u. time_out s ! nat u) evs (int i)"
    using replay_time [of evs s "\<lambda>u. time_in s ! nat u" "\<lambda>u. time_out s ! nat u"]
    by auto
  have "DepthFirstSearch_run Colormap_class depth g time_dfs_visitor s start = Inr (cm', tv)"
    using tr depth tv(1) by (rule traversal_complete)
  with tr tv cov(7) len show ?thesis by auto
qed

lemma int_vertex:
  assumes "wf_graph g" "i < length (vertices g)"
  shows "int i \<in> set (vertices g)"
proof -
  have "vertices g = map int [0..<length (vertices g)]"
    using wf_graph_vertices [OF assms(1)] wf_graph_in_range(1) [OF assms(1)] by simp
  then show ?thesis using assms(2) by (metis atLeast0LessThan imageI lessThan_iff set_map set_upt)
qed

lemma laminar_distinct:
  assumes lam: "\<forall>i < n. \<forall>j < n. i \<noteq> j \<longrightarrow>
      (xs ! i < xs ! j \<and> ys ! j < ys ! i) \<or> (xs ! j < xs ! i \<and> ys ! i < ys ! j) \<or>
      ys ! i < xs ! j \<or> ys ! j < xs ! i"
    and ne: "\<forall>i < n. xs ! i < (ys ! i :: int)"
    and len: "length xs = n" "length ys = n"
  shows "distinct (xs @ ys)"
proof -
  have "distinct xs"
    unfolding distinct_conv_nth
  proof (intro allI impI)
    fix i j assume "i < length xs" "j < length xs" "i \<noteq> j"
    then have ij: "i < n" "j < n" "i \<noteq> j" using len by simp_all
    from lam [rule_format, OF ij] ne [rule_format, OF ij(1)] ne [rule_format, OF ij(2)]
    show "xs ! i \<noteq> xs ! j" by linarith
  qed
  moreover have "distinct ys"
    unfolding distinct_conv_nth
  proof (intro allI impI)
    fix i j assume "i < length ys" "j < length ys" "i \<noteq> j"
    then have ij: "i < n" "j < n" "i \<noteq> j" using len by simp_all
    from lam [rule_format, OF ij] ne [rule_format, OF ij(1)] ne [rule_format, OF ij(2)]
    show "ys ! i \<noteq> ys ! j" by linarith
  qed
  moreover have "set xs \<inter> set ys = {}"
  proof (rule ccontr)
    assume "set xs \<inter> set ys \<noteq> {}"
    then obtain x where "x \<in> set xs" "x \<in> set ys" by blast
    then obtain i j where ij: "i < n" "j < n" "xs ! i = ys ! j"
      using len unfolding in_set_conv_nth by metis
    show False
    proof (cases "i = j")
      case True
      with ij ne show False by auto
    next
      case False
      from lam [rule_format, OF ij(1,2) False] ne [rule_format, OF ij(1)]
        ne [rule_format, OF ij(2)] ij(3)
      show False by linarith
    qed
  qed
  ultimately show ?thesis by simp
qed

lemma traversal_timestamps_laminar:
  assumes wf: "wf_graph g" and start: "start = - 1 \<or> in_range (vertices g) start"
    and depth: "length (vertices g) \<le> depth"
    and len: "length (time_in s) = length (vertices g)" "length (time_out s) = length (vertices g)"
    and ovf: "timer s + 2 * int (length (vertices g)) \<le> INT_MAX"
  shows "\<exists>tv cm'. DepthFirstSearch_run Colormap_class depth g time_dfs_visitor s start = Inr (cm', tv) \<and>
    length (time_in tv) = length (vertices g) \<and> length (time_out tv) = length (vertices g) \<and>
    (\<forall>v < length (vertices g). timer s \<le> time_in tv ! v \<and> time_in tv ! v < time_out tv ! v \<and>
        time_out tv ! v < timer s + 2 * int (length (vertices g))) \<and>
    (\<forall>i < length (vertices g). \<forall>j < length (vertices g). i \<noteq> j \<longrightarrow>
      (time_in tv ! i < time_in tv ! j \<and> time_out tv ! j < time_out tv ! i) \<or>
      (time_in tv ! j < time_in tv ! i \<and> time_out tv ! i < time_out tv ! j) \<or>
      time_out tv ! i < time_in tv ! j \<or> time_out tv ! j < time_in tv ! i)"
proof -
  let ?V = "length (vertices g)"
  let ?tin = "\<lambda>evs. stamps_in (timer s) (\<lambda>u. time_in s ! nat u) evs"
  let ?tout = "\<lambda>evs. stamps_out (timer s) (\<lambda>u. time_out s ! nat u) evs"
  from traversal_timestamps [OF assms] obtain evs cm' tv where
    tr: "traversal_protocol g start evs cm'" and
    run: "DepthFirstSearch_run Colormap_class depth g time_dfs_visitor s start = Inr (cm', tv)" and
    len': "length (time_in tv) = ?V" "length (time_out tv) = ?V" and
    st: "\<And>i. i < ?V \<Longrightarrow> time_in tv ! i = ?tin evs (int i)"
        "\<And>i. i < ?V \<Longrightarrow> time_out tv ! i = ?tout evs (int i)"
    by blast
  note lam = traversal_stamps(1) [OF wf tr, of "timer s" "\<lambda>u. time_in s ! nat u"
      "\<lambda>u. time_out s ! nat u"]
  note bnd = traversal_stamps(2) [OF wf tr, of "timer s" "\<lambda>u. time_in s ! nat u"
      "\<lambda>u. time_out s ! nat u"]
  have b: "timer s \<le> time_in tv ! v \<and> time_in tv ! v < time_out tv ! v \<and>
      time_out tv ! v < timer s + 2 * int ?V" if "v < ?V" for v
  proof -
    have "int v \<in> set (vertices g)" using wf that by (rule int_vertex)
    with lam bnd have "timer s \<le> ?tin evs (int v)" "?tin evs (int v) < ?tout evs (int v)"
      "?tout evs (int v) < timer s + 2 * int ?V"
      by (auto simp: laminar_def)
    then show ?thesis using st that by simp
  qed
  have n: "(time_in tv ! i < time_in tv ! j \<and> time_out tv ! j < time_out tv ! i) \<or>
      (time_in tv ! j < time_in tv ! i \<and> time_out tv ! i < time_out tv ! j) \<or>
      time_out tv ! i < time_in tv ! j \<or> time_out tv ! j < time_in tv ! i"
    if ij: "i < ?V" "j < ?V" "i \<noteq> j" for i j
  proof -
    from ij have "int i \<in> set (vertices g)" "int j \<in> set (vertices g)" "int i \<noteq> int j"
      using wf by (simp_all add: int_vertex)
    with lam have "(?tin evs (int i) < ?tin evs (int j) \<and> ?tout evs (int j) < ?tout evs (int i)) \<or>
      (?tin evs (int j) < ?tin evs (int i) \<and> ?tout evs (int i) < ?tout evs (int j)) \<or>
      ?tout evs (int i) < ?tin evs (int j) \<or> ?tout evs (int j) < ?tin evs (int i)"
      unfolding laminar_def by blast
    then show ?thesis using st ij by simp
  qed
  from run len' b n show ?thesis by blast
qed

lemma TimeDFSVisitor_new_simps [simp]:
  "timer (TimeDFSVisitor_new n) = 0"
  "length (time_in (TimeDFSVisitor_new n)) = n"
  "length (time_out (TimeDFSVisitor_new n)) = n"
  by (simp_all add: TimeDFSVisitor_new_def)

text \<open>
  C4. After a full traversal of a graph with \<open>V\<close> vertices by the timestamp visitor
  with its timer at 0, every vertex \<open>v\<close> has \<open>0 \<le> time_in[v] < time_out[v] \<le> 2V - 1\<close>, and
  the \<open>2V\<close> timestamps are pairwise distinct. The traversal returns whenever the stack
  holds \<open>V\<close> nested calls and \<open>2V\<close> fits an \<^verbatim>\<open>int\<close>.
\<close>

theorem timestamps_bounded_distinct:
  assumes "wf_graph g" "start = - 1 \<or> in_range (vertices g) start" "length (vertices g) \<le> depth"
    and "2 * int (length (vertices g)) \<le> INT_MAX"
  shows "\<exists>tv. DepthFirstSearch Colormap_class depth g time_dfs_visitor
            (TimeDFSVisitor_new (length (vertices g))) start = Inr tv \<and>
    length (time_in tv) = length (vertices g) \<and> length (time_out tv) = length (vertices g) \<and>
    (\<forall>v < length (vertices g). 0 \<le> time_in tv ! v \<and> time_in tv ! v < time_out tv ! v \<and>
        time_out tv ! v \<le> 2 * int (length (vertices g)) - 1) \<and>
    distinct (time_in tv @ time_out tv)"
proof -
  let ?V = "length (vertices g)"
  from traversal_timestamps_laminar [OF assms(1,2,3), of "TimeDFSVisitor_new ?V"] assms(4)
  obtain tv cm' where
    run: "DepthFirstSearch_run Colormap_class depth g time_dfs_visitor (TimeDFSVisitor_new ?V) start = Inr (cm', tv)"
    and len: "length (time_in tv) = ?V" "length (time_out tv) = ?V"
    and b: "\<forall>v < ?V. 0 \<le> time_in tv ! v \<and> time_in tv ! v < time_out tv ! v \<and>
        time_out tv ! v < 2 * int ?V"
    and n: "\<forall>i < ?V. \<forall>j < ?V. i \<noteq> j \<longrightarrow>
      (time_in tv ! i < time_in tv ! j \<and> time_out tv ! j < time_out tv ! i) \<or>
      (time_in tv ! j < time_in tv ! i \<and> time_out tv ! i < time_out tv ! j) \<or>
      time_out tv ! i < time_in tv ! j \<or> time_out tv ! j < time_in tv ! i"
    by auto
  have "distinct (time_in tv @ time_out tv)"
    using n _ len by (rule laminar_distinct) (use b in blast)
  moreover have "\<forall>v < ?V. 0 \<le> time_in tv ! v \<and> time_in tv ! v < time_out tv ! v \<and>
        time_out tv ! v \<le> 2 * int ?V - 1"
    using b by auto
  ultimately show ?thesis using DepthFirstSearch_of_run [OF run] len by blast
qed

theorem timestamps_bounded_distinct_witness:
  "wf_graph \<lparr>vertices = [0, 1, 2, 3],
      outgoing_edges = [[\<lparr>source = 0, destination = 1\<rparr>, \<lparr>source = 0, destination = 2\<rparr>], [],
        [\<lparr>source = 2, destination = 3\<rparr>], []]\<rparr> \<and>
   (\<exists>tv. DepthFirstSearch Colormap_class 4 \<lparr>vertices = [0, 1, 2, 3],
      outgoing_edges = [[\<lparr>source = 0, destination = 1\<rparr>, \<lparr>source = 0, destination = 2\<rparr>], [],
        [\<lparr>source = 2, destination = 3\<rparr>], []]\<rparr> time_dfs_visitor (TimeDFSVisitor_new 4) 0 = Inr tv \<and>
      distinct (time_in tv @ time_out tv))"
proof -
  let ?g = "\<lparr>vertices = [0, 1, 2, 3],
      outgoing_edges = [[\<lparr>source = 0, destination = 1\<rparr>, \<lparr>source = 0, destination = 2\<rparr>], [],
        [\<lparr>source = 2, destination = 3\<rparr>], []]\<rparr>"
  have h1: "wf_graph ?g" by code_simp
  have h2: "(0::int) = - 1 \<or> in_range (vertices ?g) 0" by (simp add: in_range_def)
  have h3: "length (vertices ?g) \<le> 4" by simp
  have h4: "length (vertices ?g) = 4" by simp
  have h5: "2 * int (length (vertices ?g)) \<le> INT_MAX" by (simp add: INT_MAX_def)
  from timestamps_bounded_distinct [OF h1 h2 h3 h5] obtain tv where
    "DepthFirstSearch Colormap_class 4 ?g time_dfs_visitor (TimeDFSVisitor_new 4) 0 = Inr tv"
    "distinct (time_in tv @ time_out tv)"
    unfolding h4 by blast
  with h1 show ?thesis by blast
qed

text \<open>
  C5. After a full traversal, the intervals \<open>[time_in, time_out]\<close> of two distinct
  vertices are disjoint or one lies strictly inside the other; they never overlap
  partially. This holds for every well-formed graph, so for every forest (the stack
  holding \<open>V\<close> nested calls and \<open>2V\<close> fitting an \<^verbatim>\<open>int\<close>, so that the traversal returns).
\<close>

theorem intervals_nested_or_disjoint:
  assumes "wf_graph g" "start = - 1 \<or> in_range (vertices g) start" "length (vertices g) \<le> depth"
    and "2 * int (length (vertices g)) \<le> INT_MAX"
  shows "\<exists>tv. DepthFirstSearch Colormap_class depth g time_dfs_visitor
            (TimeDFSVisitor_new (length (vertices g))) start = Inr tv \<and>
    (\<forall>u < length (vertices g). \<forall>v < length (vertices g). u \<noteq> v \<longrightarrow>
      (time_out tv ! u < time_in tv ! v \<or> time_out tv ! v < time_in tv ! u) \<or>
      (time_in tv ! u < time_in tv ! v \<and> time_out tv ! v < time_out tv ! u) \<or>
      (time_in tv ! v < time_in tv ! u \<and> time_out tv ! u < time_out tv ! v))"
proof -
  let ?V = "length (vertices g)"
  from traversal_timestamps_laminar [OF assms(1,2,3), of "TimeDFSVisitor_new ?V"] assms(4)
  obtain tv cm' where
    run: "DepthFirstSearch_run Colormap_class depth g time_dfs_visitor (TimeDFSVisitor_new ?V) start = Inr (cm', tv)"
    and n: "\<forall>i < ?V. \<forall>j < ?V. i \<noteq> j \<longrightarrow>
      (time_in tv ! i < time_in tv ! j \<and> time_out tv ! j < time_out tv ! i) \<or>
      (time_in tv ! j < time_in tv ! i \<and> time_out tv ! i < time_out tv ! j) \<or>
      time_out tv ! i < time_in tv ! j \<or> time_out tv ! j < time_in tv ! i"
    by auto
  from n have "\<forall>u < ?V. \<forall>v < ?V. u \<noteq> v \<longrightarrow>
      (time_out tv ! u < time_in tv ! v \<or> time_out tv ! v < time_in tv ! u) \<or>
      (time_in tv ! u < time_in tv ! v \<and> time_out tv ! v < time_out tv ! u) \<or>
      (time_in tv ! v < time_in tv ! u \<and> time_out tv ! u < time_out tv ! v)"
    by blast
  with DepthFirstSearch_of_run [OF run] show ?thesis by blast
qed

theorem intervals_nested_or_disjoint_witness:
  "wf_graph \<lparr>vertices = [0, 1, 2],
      outgoing_edges = [[\<lparr>source = 0, destination = 1\<rparr>, \<lparr>source = 0, destination = 2\<rparr>], [], []]\<rparr> \<and>
   (\<exists>tv. DepthFirstSearch Colormap_class 3 \<lparr>vertices = [0, 1, 2],
      outgoing_edges = [[\<lparr>source = 0, destination = 1\<rparr>, \<lparr>source = 0, destination = 2\<rparr>], [], []]\<rparr>
        time_dfs_visitor (TimeDFSVisitor_new 3) 0 = Inr tv \<and>
      ((time_out tv ! 1 < time_in tv ! 2 \<or> time_out tv ! 2 < time_in tv ! 1) \<or>
       (time_in tv ! 1 < time_in tv ! 2 \<and> time_out tv ! 2 < time_out tv ! 1) \<or>
       (time_in tv ! 2 < time_in tv ! 1 \<and> time_out tv ! 1 < time_out tv ! 2)))"
proof -
  let ?g = "\<lparr>vertices = [0, 1, 2],
      outgoing_edges = [[\<lparr>source = 0, destination = 1\<rparr>, \<lparr>source = 0, destination = 2\<rparr>], [], []]\<rparr>"
  have h1: "wf_graph ?g" by code_simp
  have h2: "(0::int) = - 1 \<or> in_range (vertices ?g) 0" by (simp add: in_range_def)
  have h3: "length (vertices ?g) \<le> 3" by simp
  have h4: "length (vertices ?g) = 3" by simp
  have h5: "2 * int (length (vertices ?g)) \<le> INT_MAX" by (simp add: INT_MAX_def)
  from intervals_nested_or_disjoint [OF h1 h2 h3 h5] obtain tv where
    run: "DepthFirstSearch Colormap_class 3 ?g time_dfs_visitor (TimeDFSVisitor_new 3) 0 = Inr tv" and
    n: "\<forall>u < (3::nat). \<forall>v < (3::nat). u \<noteq> v \<longrightarrow>
      (time_out tv ! u < time_in tv ! v \<or> time_out tv ! v < time_in tv ! u) \<or>
      (time_in tv ! u < time_in tv ! v \<and> time_out tv ! v < time_out tv ! u) \<or>
      (time_in tv ! v < time_in tv ! u \<and> time_out tv ! u < time_out tv ! v)"
    unfolding h4 by blast
  have "(time_out tv ! 1 < time_in tv ! 2 \<or> time_out tv ! 2 < time_in tv ! 1) \<or>
       (time_in tv ! 1 < time_in tv ! 2 \<and> time_out tv ! 2 < time_out tv ! 1) \<or>
       (time_in tv ! 2 < time_in tv ! 1 \<and> time_out tv ! 1 < time_out tv ! 2)"
    using n [rule_format, of 1 2] by simp
  with run h1 show ?thesis by blast
qed

section \<open>Colours move forward\<close>

lemma traversal_recorded:
  assumes wf: "wf_graph g" and start: "start = - 1 \<or> in_range (vertices g) start"
    and depth: "length (vertices g) \<le> depth"
  shows "\<exists>evs cm'. traversal_protocol g start evs cm' \<and>
    DepthFirstSearch_run Colormap_class depth g recording_visitor [] start = Inr (cm', evs)"
proof -
  from traversal_exists [OF wf start] obtain evs cm' where
    tr: "traversal_protocol g start evs cm'" by blast
  have "replay recording_visitor evs [] = Inr evs" by (simp add: replay_recording)
  with tr depth have "DepthFirstSearch_run Colormap_class depth g recording_visitor [] start = Inr (cm', evs)"
    by (rule traversal_complete)
  with tr show ?thesis by blast
qed

lemma logging_colormap_simps [simp]:
  "construct logging_colormap n = (Colormap_new n, [])"
  "GetColor logging_colormap (cm, log) v = Colormap_GetColor cm v"
  "SetColor logging_colormap = Logged_SetColor"
  by (simp_all add: logging_colormap_def Logged_GetColor_def)

lemma Logged_SetColor_eq_Inr:
  "Logged_SetColor (cm, log) v c = Inr st \<longleftrightarrow>
     in_range cm v \<and> st = (cm[nat v := c], log @ [(v, cm ! nat v, c)])"
  by (auto simp: Logged_SetColor_def and_then_eq_Inr Colormap_GetColor_def Colormap_SetColor_def
      vec_get_eq_Inr vec_set_eq_Inr)

lemma writes_to_simps [simp]:
  "writes_to u [] = []"
  "writes_to u (w # ws) = (if fst w = u then snd w # writes_to u ws else writes_to u ws)"
  "writes_to u (xs @ ys) = writes_to u xs @ writes_to u ys"
  by (simp_all add: writes_to_def)

lemma visit_writes_Nil [simp]: "visit_writes cm [] cm"
  by (simp add: visit_writes_def)

lemma visit_writes_append:
  assumes 1: "visit_writes cm ws1 cm1" and 2: "visit_writes cm1 ws2 cm2"
  shows "visit_writes cm (ws1 @ ws2) cm2"
proof -
  have r1: "recolored cm cm1" and r2: "recolored cm1 cm2"
    using 1 2 by (simp_all add: visit_writes_def)
  have rng: "in_range cm1 u = in_range cm u" for u by (rule recolored_in_range [OF r1])
  have "writes_to u (ws1 @ ws2) =
      (if cm2 ! nat u = cm ! nat u then [] else [(kWhite, kGray), (kGray, kBlack)])"
    if u: "in_range cm u" for u
  proof -
    have n: "nat u < length cm" "nat u < length cm1"
      using u r1 by (auto simp: in_range_def recolored_def)
    have w1: "writes_to u ws1 =
        (if cm1 ! nat u = cm ! nat u then [] else [(kWhite, kGray), (kGray, kBlack)])"
      using 1 u by (simp add: visit_writes_def)
    have w2: "writes_to u ws2 =
        (if cm2 ! nat u = cm1 ! nat u then [] else [(kWhite, kGray), (kGray, kBlack)])"
      using 2 u rng by (simp add: visit_writes_def)
    have c1: "cm1 ! nat u = cm ! nat u \<or> (cm ! nat u = kWhite \<and> cm1 ! nat u = kBlack)"
      using r1 n(1) by (simp add: recolored_def)
    have c2: "cm2 ! nat u = cm1 ! nat u \<or> (cm1 ! nat u = kWhite \<and> cm2 ! nat u = kBlack)"
      using r2 n(2) by (simp add: recolored_def)
    from c1 c2 show ?thesis unfolding writes_to_simps(3) w1 w2 by auto
  qed
  moreover have "\<forall>w \<in> set (ws1 @ ws2). in_range cm (fst w)"
    using 1 2 rng by (auto simp: visit_writes_def)
  ultimately show ?thesis using recolored_trans [OF r1 r2] by (simp add: visit_writes_def)
qed

lemma visit_writes_visit:
  assumes v: "in_range cm v" and w: "cm ! nat v = kWhite"
    and ws: "visit_writes (cm[nat v := kGray]) ws cm2"
  shows "visit_writes cm ((v, kWhite, kGray) # ws @ [(v, kGray, kBlack)]) (cm2[nat v := kBlack])"
proof -
  have n: "nat v < length cm" "int (nat v) = v" using v by (auto simp: in_range_def)
  have rc: "recolored (cm[nat v := kGray]) cm2" using ws by (simp add: visit_writes_def)
  then have len: "length cm2 = length cm" by (simp add: recolored_def)
  have col: "cm2 ! i = cm[nat v := kGray] ! i \<or>
      (cm[nat v := kGray] ! i = kWhite \<and> cm2 ! i = kBlack)" if "i < length cm" for i
    using rc that by (simp add: recolored_def)
  have 1: "recolored cm (cm2[nat v := kBlack])"
    unfolding recolored_def
  proof (intro conjI allI impI)
    show "length (cm2[nat v := kBlack]) = length cm" using len by simp
  next
    fix i assume i: "i < length cm"
    show "cm2[nat v := kBlack] ! i = cm ! i \<or> cm ! i = kWhite \<and> cm2[nat v := kBlack] ! i = kBlack"
      using col [OF i] i w n(1) len by (cases "i = nat v") (auto simp: nth_list_update)
  qed
  have 2: "\<forall>x \<in> set ((v, kWhite, kGray) # ws @ [(v, kGray, kBlack)]). in_range cm (fst x)"
    using ws v by (auto simp: visit_writes_def)
  have 3: "writes_to u ((v, kWhite, kGray) # ws @ [(v, kGray, kBlack)]) =
      (if cm2[nat v := kBlack] ! nat u = cm ! nat u then []
       else [(kWhite, kGray), (kGray, kBlack)])" if u: "in_range cm u" for u
  proof -
    have nu: "nat u < length cm" "int (nat u) = u" using u by (auto simp: in_range_def)
    have wu: "writes_to u ws =
        (if cm2 ! nat u = cm[nat v := kGray] ! nat u then []
         else [(kWhite, kGray), (kGray, kBlack)])"
      using ws u by (simp add: visit_writes_def)
    show ?thesis
    proof (cases "u = v")
      case True
      have "cm2 ! nat v = kGray" using col [OF n(1)] n(1) by simp
      then have "writes_to v ws = []" using wu n(1) unfolding True by simp
      then show ?thesis using True w n(1) len by simp
    next
      case False
      then have ne: "nat u \<noteq> nat v" using nu(2) n(2) by metis
      then show ?thesis using False wu nu(1) len by (simp add: nth_list_update)
    qed
  qed
  from 1 2 3 show ?thesis unfolding visit_writes_def by blast
qed

lemma logged_examine_loop:
  assumes visit: "\<And>cm log s v cm' log' s'.
      visit ((cm, log), s) v = Inr ((cm', log'), s') \<Longrightarrow> cm ! nat v = kWhite \<Longrightarrow>
        \<exists>ws. log' = log @ ws \<and> visit_writes cm ws cm'"
  shows "for_each (examine_edge logging_colormap visit vis) ((cm, log), s) es
           = Inr ((cm', log'), s') \<Longrightarrow>
         \<exists>ws. log' = log @ ws \<and> visit_writes cm ws cm'"
proof (induction es arbitrary: cm log s)
  case Nil
  then show ?case by simp
next
  case (Cons e es)
  from Cons.prems obtain cm1 log1 s1 where
    step: "examine_edge logging_colormap visit vis ((cm, log), s) e = Inr ((cm1, log1), s1)" and
    rest: "for_each (examine_edge logging_colormap visit vis) ((cm1, log1), s1) es
             = Inr ((cm', log'), s')"
    by (auto simp: and_then_eq_Inr)
  from Cons.IH [OF rest] obtain ws2 where
    ws2: "log' = log1 @ ws2" "visit_writes cm1 ws2 cm'"
    by blast
  have "\<exists>ws1. log1 = log @ ws1 \<and> visit_writes cm ws1 cm1"
  proof (cases "cm ! nat (destination e) = kWhite")
    case True
    with step obtain sa where
      "visit ((cm, log), sa) (destination e) = Inr ((cm1, log1), s1) \<or>
       (\<exists>sb. visit ((cm, log), sa) (destination e) = Inr ((cm1, log1), sb))"
      by (auto simp: examine_edge_def and_then_eq_Inr Colormap_GetColor_def vec_get_eq_Inr
          split: prod.splits)
    then obtain sb where "visit ((cm, log), sa) (destination e) = Inr ((cm1, log1), sb)"
      by blast
    from visit [OF this True] show ?thesis .
  next
    case False
    with step have "cm1 = cm \<and> log1 = log"
      by (auto simp: examine_edge_def and_then_eq_Inr Colormap_GetColor_def vec_get_eq_Inr
          split: prod.splits if_splits)
    then show ?thesis by simp
  qed
  then obtain ws1 where ws1: "log1 = log @ ws1" "visit_writes cm ws1 cm1" by blast
  from visit_writes_append [OF ws1(2) ws2(2)] ws1(1) ws2(1) show ?case by simp
qed

lemma logged_visit:
  "DepthFirstSearchVisit logging_colormap n g vis ((cm, log), s) v = Inr ((cm', log'), s') \<Longrightarrow>
   cm ! nat v = kWhite \<Longrightarrow> \<exists>ws. log' = log @ ws \<and> visit_writes cm ws cm'"
proof (induction n arbitrary: cm log s v cm' log' s')
  case 0
  then show ?case by simp
next
  case (Suc n)
  from Suc.prems(1) obtain s1 cm2 log2 s2 where
    rng: "in_range cm v" and
    loop: "for_each (examine_edge logging_colormap
               (\<lambda>st' v. DepthFirstSearchVisit logging_colormap n g vis st' v) vis)
             ((cm[nat v := kGray], log @ [(v, cm ! nat v, kGray)]), s1)
             (outgoing_edges g ! nat v) = Inr ((cm2, log2), s2)" and
    fin: "cm' = cm2[nat v := kBlack]" "log' = log2 @ [(v, cm2 ! nat v, kBlack)]"
    by (auto simp: and_then_eq_Inr Logged_SetColor_eq_Inr GetOutgoingEdges_def vec_get_eq_Inr
        split: prod.splits)
  have "\<exists>ws. log2 = (log @ [(v, cm ! nat v, kGray)]) @ ws \<and>
      visit_writes (cm[nat v := kGray]) ws cm2"
    by (rule logged_examine_loop [OF _ loop]) (rule Suc.IH)
  then obtain ws where ws: "log2 = (log @ [(v, cm ! nat v, kGray)]) @ ws"
    "visit_writes (cm[nat v := kGray]) ws cm2"
    by blast
  have n: "nat v < length cm" using rng by (auto simp: in_range_def)
  have "recolored (cm[nat v := kGray]) cm2" using ws(2) by (simp add: visit_writes_def)
  from recolored_gray [OF this, of "nat v"] n have g: "cm2 ! nat v = kGray" by simp
  have "log' = log @ ((v, kWhite, kGray) # ws @ [(v, kGray, kBlack)])"
    using fin(2) ws(1) g Suc.prems(2) by simp
  with visit_writes_visit [OF rng Suc.prems(2) ws(2)] fin(1) show ?case by blast
qed

lemma logged_sweep:
  "for_each (sweep_step logging_colormap n g vis) ((cm, log), s) vs = Inr ((cm', log'), s') \<Longrightarrow>
   \<exists>ws. log' = log @ ws \<and> visit_writes cm ws cm'"
proof (induction vs arbitrary: cm log s)
  case Nil
  then show ?case by simp
next
  case (Cons v vs)
  from Cons.prems obtain cm1 log1 s1 where
    step: "sweep_step logging_colormap n g vis ((cm, log), s) v = Inr ((cm1, log1), s1)" and
    rest: "for_each (sweep_step logging_colormap n g vis) ((cm1, log1), s1) vs
             = Inr ((cm', log'), s')"
    by (auto simp: and_then_eq_Inr)
  from Cons.IH [OF rest] obtain ws2 where
    ws2: "log' = log1 @ ws2" "visit_writes cm1 ws2 cm'"
    by blast
  have "\<exists>ws1. log1 = log @ ws1 \<and> visit_writes cm ws1 cm1"
  proof (cases "cm ! nat v = kWhite")
    case True
    with step obtain sa where
      "DepthFirstSearchVisit logging_colormap n g vis ((cm, log), sa) v = Inr ((cm1, log1), s1)"
      by (auto simp: sweep_step_def and_then_eq_Inr Colormap_GetColor_def vec_get_eq_Inr)
    from logged_visit [OF this True] show ?thesis .
  next
    case False
    with step have "cm1 = cm \<and> log1 = log"
      by (auto simp: sweep_step_def and_then_eq_Inr Colormap_GetColor_def vec_get_eq_Inr)
    then show ?thesis by simp
  qed
  then obtain ws1 where ws1: "log1 = log @ ws1" "visit_writes cm ws1 cm1" by blast
  from visit_writes_append [OF ws1(2) ws2(2)] ws1(1) ws2(1) show ?case by simp
qed

lemma logged_initialize:
  "for_each (initialize_step logging_colormap vis) ((replicate n kWhite, log), s) vs
     = Inr ((cm', log'), s') \<Longrightarrow>
   cm' = replicate n kWhite \<and> log' = log @ map (\<lambda>v. (v, kWhite, kWhite)) vs"
proof (induction vs arbitrary: log s)
  case Nil
  then show ?case by simp
next
  case (Cons v vs)
  have upd: "(replicate n kWhite)[nat v := kWhite] = replicate n kWhite"
    by (cases "nat v < n") (auto simp: list_eq_iff_nth_eq nth_list_update)
  from Cons.prems obtain st1 where
    step: "initialize_step logging_colormap vis ((replicate n kWhite, log), s) v = Inr st1" and
    rest1: "for_each (initialize_step logging_colormap vis) st1 vs = Inr ((cm', log'), s')"
    by (auto simp: and_then_eq_Inr)
  from step obtain s1 where
    rng: "in_range (replicate n kWhite) v" and
    st1: "st1 = ((replicate n kWhite, log @ [(v, replicate n kWhite ! nat v, kWhite)]), s1)"
    by (auto simp: and_then_eq_Inr initialize_step_def Logged_SetColor_eq_Inr upd)
  note rest = rest1 [unfolded st1]
  have "replicate n kWhite ! nat v = kWhite" using rng by (auto simp: in_range_def)
  with Cons.IH [OF rest] show ?case by simp
qed

lemma unlogged_simps [simp]:
  "unlogged (Inl e) = Inl e"
  "unlogged (Inr ((cm, log), s)) = Inr (cm, s)"
  by (simp_all add: unlogged_def)

lemma unlogged_bind:
  assumes "unlogged r = r'" and "\<And>cm log s. unlogged (k ((cm, log), s)) = k' (cm, s)"
  shows "unlogged (and_then r k) = and_then r' k'"
proof (cases r)
  case (Inl e)
  with assms(1) show ?thesis by auto
next
  case (Inr st)
  obtain cm log s where "st = ((cm, log), s)" by (metis surj_pair)
  with Inr assms show ?thesis by auto
qed

lemma unlogged_for_each:
  assumes "\<And>cm log s x. unlogged (f ((cm, log), s) x) = f' (cm, s) x"
  shows "unlogged (for_each f ((cm, log), s) xs) = for_each f' (cm, s) xs"
proof (induction xs arbitrary: cm log s)
  case Nil
  show ?case by simp
next
  case (Cons x xs)
  show ?case
    unfolding for_each.simps
    by (rule unlogged_bind) (rule assms, rule Cons.IH)
qed

lemma SetColor_if:
  "Logged_SetColor (cm, log) v c =
     (if in_range cm v then Inr (cm[nat v := c], log @ [(v, cm ! nat v, c)]) else Inl OutOfRange)"
  "Colormap_SetColor cm v c = (if in_range cm v then Inr (cm[nat v := c]) else Inl OutOfRange)"
  "Colormap_GetColor cm v = (if in_range cm v then Inr (cm ! nat v) else Inl OutOfRange)"
  by (simp_all add: Logged_SetColor_def Colormap_GetColor_def Colormap_SetColor_def
      vec_get_def vec_set_def in_range_def)

lemma unlogged_examine_edge:
  assumes "\<And>cm log s v. unlogged (visit ((cm, log), s) v) = visit' (cm, s) v"
  shows "unlogged (examine_edge logging_colormap visit vis ((cm, log), s) e)
           = examine_edge Colormap_class visit' vis (cm, s) e"
proof (cases "ExamineEdge vis e s")
  case (Inl err)
  then show ?thesis by (simp add: examine_edge_def)
next
  case sa: (Inr sa)
  show ?thesis
  proof (cases "in_range cm (destination e)")
    case False
    with sa show ?thesis by (simp add: examine_edge_def SetColor_if(3))
  next
    case rng: True
    show ?thesis
    proof (cases "cm ! nat (destination e) = kWhite")
      case True
      have "unlogged (and_then (and_then (visit ((cm, log), sa) (destination e))
                (\<lambda>(cm2, vs2). and_then (TreeEdge vis e vs2) (\<lambda>vs3. Inr (cm2, vs3))))
              (\<lambda>(cm2, vs3). and_then (FinishEdge vis e vs3) (\<lambda>vs4. Inr (cm2, vs4))))
            = and_then (and_then (visit' (cm, sa) (destination e))
                (\<lambda>(cm2, vs2). and_then (TreeEdge vis e vs2) (\<lambda>vs3. Inr (cm2, vs3))))
              (\<lambda>(cm2, vs3). and_then (FinishEdge vis e vs3) (\<lambda>vs4. Inr (cm2, vs4)))"
      proof (rule unlogged_bind, rule unlogged_bind, rule assms)
        fix cm1 log1 s1
        show "unlogged (case ((cm1, log1), s1) of
                (cm2, vs2) \<Rightarrow> and_then (TreeEdge vis e vs2) (\<lambda>vs3. Inr (cm2, vs3)))
              = (case (cm1, s1) of
                (cm2, vs2) \<Rightarrow> and_then (TreeEdge vis e vs2) (\<lambda>vs3. Inr (cm2, vs3)))"
          by (cases "TreeEdge vis e s1") simp_all
        show "unlogged (case ((cm1, log1), s1) of
                (cm2, vs3) \<Rightarrow> and_then (FinishEdge vis e vs3) (\<lambda>vs4. Inr (cm2, vs4)))
              = (case (cm1, s1) of
                (cm2, vs3) \<Rightarrow> and_then (FinishEdge vis e vs3) (\<lambda>vs4. Inr (cm2, vs4)))"
          by (cases "FinishEdge vis e s1") simp_all
      qed
      with sa rng True show ?thesis by (simp add: examine_edge_def SetColor_if(3))
    next
      case False
      show ?thesis
      proof (cases "cm ! nat (destination e) = kGray")
        case True
        with sa rng show ?thesis
          by (cases "BackEdge vis e sa"; cases "FinishEdge vis e (projr (BackEdge vis e sa))")
            (simp_all add: examine_edge_def SetColor_if(3))
      next
        case nG: False
        with sa rng False show ?thesis
          by (cases "ForwardOrCrossEdge vis e sa";
              cases "FinishEdge vis e (projr (ForwardOrCrossEdge vis e sa))")
            (simp_all add: examine_edge_def SetColor_if(3))
      qed
    qed
  qed
qed

lemma unlogged_visit:
  "unlogged (DepthFirstSearchVisit logging_colormap n g vis ((cm, log), s) v)
     = DepthFirstSearchVisit Colormap_class n g vis (cm, s) v"
proof (induction n arbitrary: cm log s v)
  case 0
  show ?case by simp
next
  case (Suc n)
  let ?L = "\<lambda>st es. for_each (examine_edge logging_colormap
      (\<lambda>st' v. DepthFirstSearchVisit logging_colormap n g vis st' v) vis) st es"
  let ?C = "\<lambda>st es. for_each (examine_edge Colormap_class
      (\<lambda>st' v. DepthFirstSearchVisit Colormap_class n g vis st' v) vis) st es"
  have loop: "unlogged (?L ((cm1, log1), s1) es) = ?C (cm1, s1) es" for cm1 log1 s1 es
    by (rule unlogged_for_each) (rule unlogged_examine_edge, rule Suc.IH)
  show ?case
  proof (cases "in_range cm v")
    case False
    then show ?thesis by (simp add: SetColor_if)
  next
    case rng: True
    show ?thesis
    proof (cases "DiscoverVertex vis v s")
      case (Inl err)
      with rng show ?thesis by (simp add: SetColor_if)
    next
      case s1: (Inr s1)
      show ?thesis
      proof (cases "GetOutgoingEdges g v")
        case (Inl err)
        with rng s1 show ?thesis by (simp add: SetColor_if)
      next
        case es: (Inr es)
        let ?log1 = "log @ [(v, cm ! nat v, kGray)]"
        have "unlogged (and_then (?L ((cm[nat v := kGray], ?log1), s1) es)
                (\<lambda>(cm2, vs2). and_then (Logged_SetColor cm2 v kBlack) (\<lambda>cm3.
                   and_then (FinishVertex vis v vs2) (\<lambda>vs3. Inr (cm3, vs3)))))
            = and_then (?C (cm[nat v := kGray], s1) es)
                (\<lambda>(cm2, vs2). and_then (Colormap_SetColor cm2 v kBlack) (\<lambda>cm3.
                   and_then (FinishVertex vis v vs2) (\<lambda>vs3. Inr (cm3, vs3))))"
        proof (rule unlogged_bind, rule loop)
          fix cm2 log2 s2
          show "unlogged (case ((cm2, log2), s2) of
                  (cm2, vs2) \<Rightarrow> and_then (Logged_SetColor cm2 v kBlack) (\<lambda>cm3.
                     and_then (FinishVertex vis v vs2) (\<lambda>vs3. Inr (cm3, vs3))))
                = (case (cm2, s2) of
                  (cm2, vs2) \<Rightarrow> and_then (Colormap_SetColor cm2 v kBlack) (\<lambda>cm3.
                     and_then (FinishVertex vis v vs2) (\<lambda>vs3. Inr (cm3, vs3))))"
            by (cases "FinishVertex vis v s2") (simp_all add: SetColor_if)
        qed
        with rng s1 es show ?thesis by (simp add: SetColor_if)
      qed
    qed
  qed
qed

lemma unlogged_initialize_step:
  "unlogged (initialize_step logging_colormap vis ((cm, log), s) v)
     = initialize_step Colormap_class vis (cm, s) v"
  by (cases "InitializeVertex vis v s") (simp_all add: initialize_step_def SetColor_if)

lemma unlogged_sweep_step:
  "unlogged (sweep_step logging_colormap n g vis ((cm, log), s) v)
     = sweep_step Colormap_class n g vis (cm, s) v"
  by (cases "StartVertex vis v s") (simp_all add: sweep_step_def SetColor_if(3) unlogged_visit)

lemma unlogged_run:
  "unlogged (DepthFirstSearch_run logging_colormap depth g vis vs start)
     = DepthFirstSearch_run Colormap_class depth g vis vs start"
  unfolding DepthFirstSearch_run_def logging_colormap_simps Colormap_class_simps
proof (rule unlogged_bind)
  show "unlogged (for_each (initialize_step logging_colormap vis)
          ((Colormap_new (length (GetVertices g)), []), vs) (GetVertices g))
        = for_each (initialize_step Colormap_class vis)
          (Colormap_new (length (GetVertices g)), vs) (GetVertices g)"
    by (rule unlogged_for_each) (rule unlogged_initialize_step)
next
  fix cm log s
  show "unlogged (and_then
          (if start \<noteq> - 1 then
             (case ((cm, log), s) of (colormap, vs1) \<Rightarrow>
                and_then (StartVertex vis start vs1) (\<lambda>vs2.
                  DepthFirstSearchVisit logging_colormap depth g vis (colormap, vs2) start))
           else Inr ((cm, log), s))
          (\<lambda>st2. for_each (sweep_step logging_colormap depth g vis) st2 (GetVertices g)))
        = and_then
          (if start \<noteq> - 1 then
             (case (cm, s) of (colormap, vs1) \<Rightarrow>
                and_then (StartVertex vis start vs1) (\<lambda>vs2.
                  DepthFirstSearchVisit Colormap_class depth g vis (colormap, vs2) start))
           else Inr (cm, s))
          (\<lambda>st2. for_each (sweep_step Colormap_class depth g vis) st2 (GetVertices g))"
  proof (rule unlogged_bind)
    show "unlogged (if start \<noteq> - 1 then
             (case ((cm, log), s) of (colormap, vs1) \<Rightarrow>
                and_then (StartVertex vis start vs1) (\<lambda>vs2.
                  DepthFirstSearchVisit logging_colormap depth g vis (colormap, vs2) start))
           else Inr ((cm, log), s))
        = (if start \<noteq> - 1 then
             (case (cm, s) of (colormap, vs1) \<Rightarrow>
                and_then (StartVertex vis start vs1) (\<lambda>vs2.
                  DepthFirstSearchVisit Colormap_class depth g vis (colormap, vs2) start))
           else Inr (cm, s))"
      by (cases "StartVertex vis start s") (simp_all add: unlogged_visit)
  next
    fix cm1 log1 s1
    show "unlogged (for_each (sweep_step logging_colormap depth g vis) ((cm1, log1), s1)
            (GetVertices g))
          = for_each (sweep_step Colormap_class depth g vis) (cm1, s1) (GetVertices g)"
      by (rule unlogged_for_each) (rule unlogged_sweep_step)
  qed
qed

lemma unlogged_eq_Inr:
  "unlogged r = Inr (cm, s) \<longleftrightarrow> (\<exists>log. r = Inr ((cm, log), s))"
  by (cases r) (auto simp: unlogged_def)

lemma logged_run:
  assumes "DepthFirstSearch_run logging_colormap depth g vis vs start = Inr ((cm', log), vs')"
  shows "\<exists>ws. log = map (\<lambda>v. (v, kWhite, kWhite)) (vertices g) @ ws \<and>
    visit_writes (replicate (length (vertices g)) kWhite) ws cm'"
proof -
  let ?cm0 = "replicate (length (vertices g)) kWhite"
  from assms obtain st1 st2 where
    init: "for_each (initialize_step logging_colormap vis) ((?cm0, []), vs) (vertices g) = Inr st1"
    and mid: "(if start \<noteq> - 1 then
             (case st1 of (colormap, vs1) \<Rightarrow>
                and_then (StartVertex vis start vs1) (\<lambda>vs2.
                  DepthFirstSearchVisit logging_colormap depth g vis (colormap, vs2) start))
           else Inr st1) = Inr st2"
    and sw: "for_each (sweep_step logging_colormap depth g vis) st2 (vertices g)
           = Inr ((cm', log), vs')"
    unfolding DepthFirstSearch_run_def GetVertices_def logging_colormap_simps Colormap_new_def
    by (auto simp: and_then_eq_Inr)
  obtain cm1 log1 s1 where st1: "st1 = ((cm1, log1), s1)" by (metis surj_pair)
  obtain cm2 log2 s2 where st2: "st2 = ((cm2, log2), s2)" by (metis surj_pair)
  from logged_initialize [OF init [unfolded st1]] have
    1: "cm1 = ?cm0" "log1 = map (\<lambda>v. (v, kWhite, kWhite)) (vertices g)"
    by simp_all
  have 2: "\<exists>ws. log2 = log1 @ ws \<and> visit_writes cm1 ws cm2"
  proof (cases "start \<noteq> - 1")
    case True
    with mid obtain sa where
      v: "DepthFirstSearchVisit logging_colormap depth g vis ((cm1, log1), sa) start
           = Inr ((cm2, log2), s2)"
      by (auto simp: st1 st2 and_then_eq_Inr)
    from unlogged_visit [of depth g vis cm1 log1 sa start] v
    have "DepthFirstSearchVisit Colormap_class depth g vis (cm1, sa) start = Inr (cm2, s2)"
      by simp
    from visit_sound [OF this] have "in_range cm1 start"
      by (auto elim: visit_protocol.cases)
    then have "cm1 ! nat start = kWhite" unfolding 1 by (auto simp: in_range_def)
    from logged_visit [OF v this] show ?thesis .
  next
    case False
    with mid have "cm2 = cm1 \<and> log2 = log1" by (simp add: st1 st2)
    then show ?thesis by simp
  qed
  then obtain ws1 where ws1: "log2 = log1 @ ws1" "visit_writes cm1 ws1 cm2" by blast
  from logged_sweep [OF sw [unfolded st2]] obtain ws2 where
    ws2: "log = log2 @ ws2" "visit_writes cm2 ws2 cm'" by blast
  from visit_writes_append [OF ws1(2) ws2(2)] ws1(1) ws2(1) 1 show ?thesis by auto
qed

lemma writes_to_initial:
  "distinct vs \<Longrightarrow> v \<in> set vs \<Longrightarrow>
     writes_to v (map (\<lambda>u. (u, kWhite, kWhite)) vs) = [(kWhite, kWhite)]"
  "v \<notin> set vs \<Longrightarrow> writes_to v (map (\<lambda>u. (u, kWhite, kWhite)) vs) = []"
  by (induction vs) (auto simp: writes_to_def)

text \<open>
  C6. Throughout a traversal every vertex's colour moves only along
  \<open>kWhite \<rightarrow> kGray \<rightarrow> kBlack\<close>. The traversal is run with the colormap class that logs every
  call of \<^verbatim>\<open>SetColor\<close> and otherwise is \<^verbatim>\<open>Colormap\<close> (both runs end with the same colours and
  the same visitor). For any visitor, when the run returns, the calls that concern a
  vertex are three, in this order: the initialisation, which writes \<open>kWhite\<close> over \<open>kWhite\<close>,
  one call that writes \<open>kGray\<close> when the vertex holds \<open>kWhite\<close>, and one call that writes
  \<open>kBlack\<close> when it holds \<open>kGray\<close>. So no colour is skipped, none moves backward, and a
  finished vertex is never made in-progress again; every call concerns a vertex of the
  graph, and at the end every vertex is \<open>kBlack\<close>. With the recording visitor and a stack
  that holds \<open>V\<close> nested calls the run does return.
\<close>

theorem colors_move_forward:
  assumes "wf_graph g" "start = - 1 \<or> in_range (vertices g) start"
  shows "(DepthFirstSearch_run logging_colormap depth g vis vs start = Inr ((cm', log), vs') \<longrightarrow>
      DepthFirstSearch_run Colormap_class depth g vis vs start = Inr (cm', vs') \<and>
      (\<forall>v \<in> set (vertices g).
         writes_to v log = [(kWhite, kWhite), (kWhite, kGray), (kGray, kBlack)]) \<and>
      (\<forall>w \<in> set log. fst w \<in> set (vertices g)) \<and>
      cm' = replicate (length (vertices g)) kBlack) \<and>
    (length (vertices g) \<le> depth \<longrightarrow>
      (\<exists>cm log evs. DepthFirstSearch_run logging_colormap depth g recording_visitor [] start
         = Inr ((cm, log), evs)))"
proof (intro conjI impI)
  let ?V = "length (vertices g)"
  let ?cm0 = "replicate ?V kWhite"
  assume run: "DepthFirstSearch_run logging_colormap depth g vis vs start = Inr ((cm', log), vs')"
  from unlogged_run [of depth g vis vs start] run
  show plain: "DepthFirstSearch_run Colormap_class depth g vis vs start = Inr (cm', vs')"
    by simp
  from traversal_sound [OF plain] obtain evs where tr: "traversal_protocol g start evs cm'"
    by blast
  note cov = traversal_covers(5,6) [OF assms(1) tr]
  show black: "cm' = replicate ?V kBlack"
    using cov by (simp add: list_eq_iff_nth_eq)
  from logged_run [OF run] obtain ws where
    log: "log = map (\<lambda>v. (v, kWhite, kWhite)) (vertices g) @ ws" and
    ws: "visit_writes ?cm0 ws cm'"
    by blast
  have vs: "vertices g = map int [0..<?V]"
    using wf_graph_vertices [OF assms(1)] wf_graph_in_range(1) [OF assms(1)] by simp
  have d: "distinct (vertices g)" by (subst vs) (simp add: distinct_map)
  show "\<forall>v \<in> set (vertices g).
      writes_to v log = [(kWhite, kWhite), (kWhite, kGray), (kGray, kBlack)]"
  proof
    fix v assume v: "v \<in> set (vertices g)"
    then have r: "in_range ?cm0 v"
      using wf_graph_in_range(2) [OF assms(1)] by (simp add: in_range_def)
    then have n: "nat v < ?V" by (auto simp: in_range_def)
    have "writes_to v ws = [(kWhite, kGray), (kGray, kBlack)]"
      using ws r n by (simp add: visit_writes_def black)
    then show "writes_to v log = [(kWhite, kWhite), (kWhite, kGray), (kGray, kBlack)]"
      unfolding log by (simp add: writes_to_initial(1) [OF d v])
  qed
  show "\<forall>w \<in> set log. fst w \<in> set (vertices g)"
  proof
    fix w assume "w \<in> set log"
    then consider "w \<in> set (map (\<lambda>v. (v, kWhite, kWhite)) (vertices g))" | "w \<in> set ws"
      unfolding log by auto
    then show "fst w \<in> set (vertices g)"
    proof cases
      case 1
      then show ?thesis by auto
    next
      case 2
      then have "in_range ?cm0 (fst w)" using ws by (simp add: visit_writes_def)
      then have "nat (fst w) < ?V" "int (nat (fst w)) = fst w" by (auto simp: in_range_def)
      with int_vertex [OF assms(1), of "nat (fst w)"] show ?thesis by simp
    qed
  qed
next
  assume "length (vertices g) \<le> depth"
  from traversal_recorded [OF assms this] obtain evs cm where
    "DepthFirstSearch_run Colormap_class depth g recording_visitor [] start = Inr (cm, evs)"
    by blast
  with unlogged_run [of depth g recording_visitor "[]" start]
  show "\<exists>cm log evs. DepthFirstSearch_run logging_colormap depth g recording_visitor [] start
         = Inr ((cm, log), evs)"
    by (auto simp: unlogged_eq_Inr)
qed

theorem colors_move_forward_witness:
  "wf_graph \<lparr>vertices = [0, 1, 2],
      outgoing_edges = [[\<lparr>source = 0, destination = 1\<rparr>], [\<lparr>source = 1, destination = 0\<rparr>],
        [\<lparr>source = 2, destination = 1\<rparr>]]\<rparr> \<and>
   (\<exists>evs. DepthFirstSearch_run logging_colormap 3 \<lparr>vertices = [0, 1, 2],
      outgoing_edges = [[\<lparr>source = 0, destination = 1\<rparr>], [\<lparr>source = 1, destination = 0\<rparr>],
        [\<lparr>source = 2, destination = 1\<rparr>]]\<rparr> recording_visitor [] 1 =
      Inr (([kBlack, kBlack, kBlack],
        [(0, kWhite, kWhite), (1, kWhite, kWhite), (2, kWhite, kWhite),
         (1, kWhite, kGray), (0, kWhite, kGray), (0, kGray, kBlack),
         (1, kGray, kBlack), (2, kWhite, kGray), (2, kGray, kBlack)]), evs) \<and>
      DepthFirstSearch_run Colormap_class 3 \<lparr>vertices = [0, 1, 2],
      outgoing_edges = [[\<lparr>source = 0, destination = 1\<rparr>], [\<lparr>source = 1, destination = 0\<rparr>],
        [\<lparr>source = 2, destination = 1\<rparr>]]\<rparr> recording_visitor [] 1 =
      Inr ([kBlack, kBlack, kBlack], evs)) \<and>
   writes_to 1 [(0, kWhite, kWhite), (1, kWhite, kWhite), (2, kWhite, kWhite),
         (1, kWhite, kGray), (0, kWhite, kGray), (0, kGray, kBlack),
         (1, kGray, kBlack), (2, kWhite, kGray), (2, kGray, kBlack)]
     = [(kWhite, kWhite), (kWhite, kGray), (kGray, kBlack)]"
proof -
  let ?g = "\<lparr>vertices = [0, 1, 2],
      outgoing_edges = [[\<lparr>source = 0, destination = 1\<rparr>], [\<lparr>source = 1, destination = 0\<rparr>],
        [\<lparr>source = 2, destination = 1\<rparr>]]\<rparr>"
  let ?log = "[(0, kWhite, kWhite), (1, kWhite, kWhite), (2, kWhite, kWhite),
         (1, kWhite, kGray), (0, kWhite, kGray), (0, kGray, kBlack),
         (1, kGray, kBlack), (2, kWhite, kGray), (2, kGray, kBlack)]"
  let ?evs = "[OnInitializeVertex 0, OnInitializeVertex 1, OnInitializeVertex 2,
       OnStartVertex 1, OnDiscoverVertex 1,
       OnExamineEdge \<lparr>source = 1, destination = 0\<rparr>, OnDiscoverVertex 0,
       OnExamineEdge \<lparr>source = 0, destination = 1\<rparr>,
       OnBackEdge \<lparr>source = 0, destination = 1\<rparr>,
       OnFinishEdge \<lparr>source = 0, destination = 1\<rparr>, OnFinishVertex 0,
       OnTreeEdge \<lparr>source = 1, destination = 0\<rparr>,
       OnFinishEdge \<lparr>source = 1, destination = 0\<rparr>, OnFinishVertex 1,
       OnStartVertex 2, OnDiscoverVertex 2,
       OnExamineEdge \<lparr>source = 2, destination = 1\<rparr>,
       OnForwardOrCrossEdge \<lparr>source = 2, destination = 1\<rparr>,
       OnFinishEdge \<lparr>source = 2, destination = 1\<rparr>, OnFinishVertex 2]"
  have h1: "wf_graph ?g" by code_simp
  have h2: "(1::int) = - 1 \<or> in_range (vertices ?g) 1" by (simp add: in_range_def)
  have h3: "length (vertices ?g) \<le> 3" by simp
  have h4: "DepthFirstSearch_run logging_colormap 3 ?g recording_visitor [] 1
      = Inr (([kBlack, kBlack, kBlack], ?log), ?evs)"
    by code_simp
  have h5: "(1::int) \<in> set (vertices ?g)" by simp
  note t = colors_move_forward [OF h1 h2, of 3 recording_visitor "[]" "[kBlack, kBlack, kBlack]"
      ?log ?evs]
  from t [THEN conjunct1, rule_format, OF h4] have
    "DepthFirstSearch_run Colormap_class 3 ?g recording_visitor [] 1
       = Inr ([kBlack, kBlack, kBlack], ?evs)"
    "\<forall>v \<in> set (vertices ?g).
       writes_to v ?log = [(kWhite, kWhite), (kWhite, kGray), (kGray, kBlack)]"
    by blast+
  with h1 h4 h5 t [THEN conjunct2, rule_format, OF h3] show ?thesis by blast
qed

section \<open>Every vertex and every edge, once\<close>

lemma mset_concat_map_cong:
  "mset xs = mset ys \<Longrightarrow> mset (concat (map f xs)) = mset (concat (map f ys))"
proof -
  have "mset (concat (map f zs)) = \<Sum>\<^sub># (image_mset (\<lambda>z. mset (f z)) (mset zs))" for zs
    by (induction zs) simp_all
  then show "mset xs = mset ys \<Longrightarrow> mset (concat (map f xs)) = mset (concat (map f ys))"
    by simp
qed

lemma traversal_examined:
  assumes wf: "wf_graph g" and tr: "traversal_protocol g start evs cm'"
  shows "mset (discovered evs) = mset (vertices g)" "mset (finished evs) = mset (vertices g)"
    "mset (examined evs) = mset (concat (outgoing_edges g))"
proof -
  note cov = traversal_covers [OF wf tr]
  have vs: "vertices g = map int [0..<length (outgoing_edges g)]"
    using wf by (rule wf_graph_vertices)
  then have "distinct (vertices g)" by (simp add: distinct_map)
  with cov(1,2) show d: "mset (discovered evs) = mset (vertices g)"
    by (simp add: set_eq_iff_mset_eq_distinct)
  have "mset (finished evs) = mset (discovered evs)"
    using traversal_good_run(1) [OF tr] by (simp add: good_run_def)
  with d show "mset (finished evs) = mset (vertices g)" by simp
  have "mset (examined evs) =
      mset (concat (map (\<lambda>u. outgoing_edges g ! nat u) (discovered evs)))"
    using traversal_good_run(1) [OF tr] by (simp add: good_run_def)
  also have "\<dots> = mset (concat (map (\<lambda>u. outgoing_edges g ! nat u) (vertices g)))"
    using d by (rule mset_concat_map_cong)
  also have "map (\<lambda>u. outgoing_edges g ! nat u) (vertices g) = outgoing_edges g"
    by (subst vs) (simp add: o_def map_nth)
  finally show "mset (examined evs) = mset (concat (outgoing_edges g))" .
qed

lemma traversal_start_first:
  assumes "traversal_protocol g start evs cm'" "start \<noteq> - 1"
  shows "\<exists>evs1 cm1 evs2 body.
    evs = map OnInitializeVertex (vertices g) @ OnStartVertex start # evs1 @ evs2 \<and>
    evs1 = OnDiscoverVertex start # body @ [OnFinishVertex start] \<and>
    visit_protocol g (replicate (length (vertices g)) kWhite) start evs1 cm1 \<and>
    sweep_protocol g cm1 (vertices g) evs2 cm'"
  using assms
proof (induction rule: traversal_protocol.induct)
  case (with_start start g evs1 cm1 evs2 cm2)
  from with_start.hyps(3) obtain body where
    "evs1 = OnDiscoverVertex start # body @ [OnFinishVertex start]"
    by (auto elim: visit_protocol.cases)
  with with_start.hyps(3,4) show ?case by blast
next
  case (without_start g evs2 cm2)
  then show ?case by simp
qed

text \<open>
  C3. \<^verbatim>\<open>DepthFirstSearch\<close> discovers and finishes every vertex of the graph exactly once
  and examines every edge exactly once: the discovered vertices, in order, are a
  permutation of the vertex list, and the examined edges are a permutation of the
  edges of the graph. When a start vertex is given, it is the first vertex started and
  discovered, right after the initialisation of all vertices, and it is visited to its
  end; the sweep over the vertices in order follows and visits every vertex that is
  still unvisited, so that all vertices end up finished.
\<close>

theorem traversal_visits_everything_once:
  assumes "wf_graph g" "start = - 1 \<or> in_range (vertices g) start" "length (vertices g) \<le> depth"
  shows "\<exists>evs cm'. DepthFirstSearch_run Colormap_class depth g recording_visitor [] start = Inr (cm', evs) \<and>
    mset (discovered evs) = mset (vertices g) \<and>
    mset (finished evs) = mset (vertices g) \<and>
    mset (examined evs) = mset (concat (outgoing_edges g)) \<and>
    cm' = replicate (length (vertices g)) kBlack \<and>
    (start \<noteq> - 1 \<longrightarrow> (\<exists>evs1 cm1 evs2 body.
        evs = map OnInitializeVertex (vertices g) @ OnStartVertex start # evs1 @ evs2 \<and>
        evs1 = OnDiscoverVertex start # body @ [OnFinishVertex start] \<and>
        visit_protocol g (replicate (length (vertices g)) kWhite) start evs1 cm1 \<and>
        sweep_protocol g cm1 (vertices g) evs2 cm'))"
proof -
  from traversal_recorded [OF assms] obtain evs cm' where
    tr: "traversal_protocol g start evs cm'" and
    run: "DepthFirstSearch_run Colormap_class depth g recording_visitor [] start = Inr (cm', evs)"
    by blast
  note cov = traversal_covers [OF assms(1) tr]
  have "cm' = replicate (length (vertices g)) kBlack"
    using cov(5,6) by (simp add: list_eq_iff_nth_eq)
  with run traversal_examined [OF assms(1) tr] traversal_start_first [OF tr]
  show ?thesis by blast
qed

theorem traversal_visits_everything_once_witness:
  "wf_graph \<lparr>vertices = [0, 1, 2],
      outgoing_edges = [[], [\<lparr>source = 1, destination = 0\<rparr>, \<lparr>source = 1, destination = 0\<rparr>],
        []]\<rparr> \<and>
   (\<exists>evs cm'. DepthFirstSearch_run Colormap_class 3 \<lparr>vertices = [0, 1, 2],
      outgoing_edges = [[], [\<lparr>source = 1, destination = 0\<rparr>, \<lparr>source = 1, destination = 0\<rparr>],
        []]\<rparr> recording_visitor [] 1 = Inr (cm', evs) \<and>
      mset (discovered evs) = mset [0, 1, 2] \<and>
      mset (examined evs) = mset [\<lparr>source = 1, destination = 0\<rparr>, \<lparr>source = 1, destination = 0\<rparr>])"
proof -
  let ?g = "\<lparr>vertices = [0, 1, 2],
      outgoing_edges = [[], [\<lparr>source = 1, destination = 0\<rparr>, \<lparr>source = 1, destination = 0\<rparr>],
        []]\<rparr>"
  have h1: "wf_graph ?g" by code_simp
  have h2: "(1::int) = - 1 \<or> in_range (vertices ?g) 1" by (simp add: in_range_def)
  have h3: "length (vertices ?g) \<le> 3" by simp
  have h4: "vertices ?g = [0, 1, 2]"
    "concat (outgoing_edges ?g) = [\<lparr>source = 1, destination = 0\<rparr>, \<lparr>source = 1, destination = 0\<rparr>]"
    by simp_all
  from traversal_visits_everything_once [OF h1 h2 h3] h1 show ?thesis unfolding h4 by blast
qed

lemma visit_recorded:
  assumes "wf_graph g" "length cm = length (outgoing_edges g)" "in_range cm v"
    "cm ! nat v = kWhite" "length cm \<le> depth"
  shows "\<exists>evs cm'. visit_protocol g cm v evs cm' \<and>
    DepthFirstSearchVisit Colormap_class depth g recording_visitor (cm, []) v = Inr (cm', evs)"
proof -
  have wc: "white_count cm \<le> depth" using white_count_le_length [of cm] assms(5) by simp
  from visit_exists [OF assms(1,2,3,4) wc] obtain evs cm' where
    vp: "visit_protocol g cm v evs cm'" by blast
  have "replay recording_visitor evs [] = Inr evs" by (simp add: replay_recording)
  with protocol_complete(1) [OF vp, where vis = recording_visitor] assms(4) wc
  have "DepthFirstSearchVisit Colormap_class depth g recording_visitor (cm, []) v = Inr (cm', evs)" by blast
  with vp show ?thesis by blast
qed

text \<open>
  C7. The callbacks of one visit of \<open>v\<close>, for any visitor: \<open>DiscoverVertex v\<close> first, with
  \<open>v\<close> just turned \<open>kGray\<close>; then, for each outgoing edge in order, \<open>ExamineEdge\<close>, then
  exactly one of: the whole visit of the destination followed by \<open>TreeEdge\<close> (destination
  \<open>kWhite\<close>), \<open>BackEdge\<close> (destination \<open>kGray\<close>), \<open>ForwardOrCrossEdge\<close> (destination
  \<open>kBlack\<close>), then \<open>FinishEdge\<close>; and \<open>FinishVertex v\<close> last, with \<open>v\<close> just turned
  \<open>kBlack\<close>. The visitor's final state is what these callbacks, made in this order, compute.
  On a well-formed graph the visit of an unvisited vertex returns, given a stack budget of
  one nested call per vertex.
\<close>

theorem visit_callback_order:
  "(DepthFirstSearchVisit Colormap_class depth g visitor (cm, s) v = Inr (cm', s') \<longrightarrow>
      (\<exists>evs body cm1. visit_protocol g cm v evs cm' \<and> replay visitor evs s = Inr s' \<and>
         evs = OnDiscoverVertex v # body @ [OnFinishVertex v] \<and>
         edges_protocol g (cm[nat v := kGray]) (outgoing_edges g ! nat v) body cm1 \<and>
         cm' = cm1[nat v := kBlack])) \<and>
   (wf_graph g \<and> length cm = length (outgoing_edges g) \<and> in_range cm v \<and>
      cm ! nat v = kWhite \<and> length cm \<le> depth \<longrightarrow>
      (\<exists>evs cm2. DepthFirstSearchVisit Colormap_class depth g recording_visitor (cm, []) v = Inr (cm2, evs) \<and>
         visit_protocol g cm v evs cm2))"
proof (intro conjI impI)
  assume run: "DepthFirstSearchVisit Colormap_class depth g visitor (cm, s) v = Inr (cm', s')"
  from visit_sound [OF run] obtain evs where
    evs: "visit_protocol g cm v evs cm'" "replay visitor evs s = Inr s'" by blast
  from evs(1) obtain body cm1 where "evs = OnDiscoverVertex v # body @ [OnFinishVertex v]"
    "edges_protocol g (cm[nat v := kGray]) (outgoing_edges g ! nat v) body cm1"
    "cm' = cm1[nat v := kBlack]"
    by (auto elim: visit_protocol.cases)
  with evs show "\<exists>evs body cm1. visit_protocol g cm v evs cm' \<and> replay visitor evs s = Inr s' \<and>
    evs = OnDiscoverVertex v # body @ [OnFinishVertex v] \<and>
    edges_protocol g (cm[nat v := kGray]) (outgoing_edges g ! nat v) body cm1 \<and>
    cm' = cm1[nat v := kBlack]"
    by blast
next
  assume "wf_graph g \<and> length cm = length (outgoing_edges g) \<and> in_range cm v \<and>
      cm ! nat v = kWhite \<and> length cm \<le> depth"
  then have "\<exists>evs cm'. visit_protocol g cm v evs cm' \<and>
      DepthFirstSearchVisit Colormap_class depth g recording_visitor (cm, []) v = Inr (cm', evs)"
    by (intro visit_recorded) simp_all
  then show "\<exists>evs cm2. DepthFirstSearchVisit Colormap_class depth g recording_visitor (cm, []) v = Inr (cm2, evs) \<and>
      visit_protocol g cm v evs cm2"
    by blast
qed

theorem visit_callback_order_witness:
  "wf_graph \<lparr>vertices = [0, 1, 2],
      outgoing_edges = [[\<lparr>source = 0, destination = 1\<rparr>, \<lparr>source = 0, destination = 2\<rparr>],
        [\<lparr>source = 1, destination = 0\<rparr>], []]\<rparr> \<and>
   DepthFirstSearchVisit Colormap_class 3 \<lparr>vertices = [0, 1, 2],
      outgoing_edges = [[\<lparr>source = 0, destination = 1\<rparr>, \<lparr>source = 0, destination = 2\<rparr>],
        [\<lparr>source = 1, destination = 0\<rparr>], []]\<rparr> recording_visitor
      ([kWhite, kWhite, kBlack], []) 0
    = Inr ([kBlack, kBlack, kBlack],
        [OnDiscoverVertex 0,
           OnExamineEdge \<lparr>source = 0, destination = 1\<rparr>,
             OnDiscoverVertex 1,
               OnExamineEdge \<lparr>source = 1, destination = 0\<rparr>,
               OnBackEdge \<lparr>source = 1, destination = 0\<rparr>,
               OnFinishEdge \<lparr>source = 1, destination = 0\<rparr>,
             OnFinishVertex 1,
           OnTreeEdge \<lparr>source = 0, destination = 1\<rparr>,
           OnFinishEdge \<lparr>source = 0, destination = 1\<rparr>,
           OnExamineEdge \<lparr>source = 0, destination = 2\<rparr>,
           OnForwardOrCrossEdge \<lparr>source = 0, destination = 2\<rparr>,
           OnFinishEdge \<lparr>source = 0, destination = 2\<rparr>,
         OnFinishVertex 0]) \<and>
   (\<exists>evs body cm1. visit_protocol \<lparr>vertices = [0, 1, 2],
      outgoing_edges = [[\<lparr>source = 0, destination = 1\<rparr>, \<lparr>source = 0, destination = 2\<rparr>],
        [\<lparr>source = 1, destination = 0\<rparr>], []]\<rparr> [kWhite, kWhite, kBlack] 0 evs
        [kBlack, kBlack, kBlack] \<and>
      evs = OnDiscoverVertex 0 # body @ [OnFinishVertex 0]) \<and>
   (\<exists>evs cm2. DepthFirstSearchVisit Colormap_class 3 \<lparr>vertices = [0, 1, 2],
      outgoing_edges = [[\<lparr>source = 0, destination = 1\<rparr>, \<lparr>source = 0, destination = 2\<rparr>],
        [\<lparr>source = 1, destination = 0\<rparr>], []]\<rparr> recording_visitor
      ([kWhite, kWhite, kBlack], []) 0 = Inr (cm2, evs))"
proof -
  let ?g = "\<lparr>vertices = [0, 1, 2],
      outgoing_edges = [[\<lparr>source = 0, destination = 1\<rparr>, \<lparr>source = 0, destination = 2\<rparr>],
        [\<lparr>source = 1, destination = 0\<rparr>], []]\<rparr>"
  let ?cm = "[kWhite, kWhite, kBlack]"
  let ?evs = "[OnDiscoverVertex 0,
           OnExamineEdge \<lparr>source = 0, destination = 1\<rparr>,
             OnDiscoverVertex 1,
               OnExamineEdge \<lparr>source = 1, destination = 0\<rparr>,
               OnBackEdge \<lparr>source = 1, destination = 0\<rparr>,
               OnFinishEdge \<lparr>source = 1, destination = 0\<rparr>,
             OnFinishVertex 1,
           OnTreeEdge \<lparr>source = 0, destination = 1\<rparr>,
           OnFinishEdge \<lparr>source = 0, destination = 1\<rparr>,
           OnExamineEdge \<lparr>source = 0, destination = 2\<rparr>,
           OnForwardOrCrossEdge \<lparr>source = 0, destination = 2\<rparr>,
           OnFinishEdge \<lparr>source = 0, destination = 2\<rparr>,
         OnFinishVertex 0]"
  have h: "DepthFirstSearchVisit Colormap_class 3 ?g recording_visitor (?cm, []) 0
      = Inr ([kBlack, kBlack, kBlack], ?evs)"
    by code_simp
  have w: "wf_graph ?g" by code_simp
  have k: "wf_graph ?g \<and> length ?cm = length (outgoing_edges ?g) \<and> in_range ?cm 0 \<and>
      ?cm ! nat 0 = kWhite \<and> length ?cm \<le> 3"
    using w by (simp add: in_range_def)
  note t = visit_callback_order [of 3 ?g recording_visitor ?cm "[]" 0 "[kBlack, kBlack, kBlack]" ?evs]
  from t [THEN conjunct1, rule_format, OF h] t [THEN conjunct2, rule_format, OF k] h w
  show ?thesis by blast
qed

text \<open>
  C8. The timestamps are a function of the graph and the start vertex alone: two runs
  on the same graph from the same start, each with its own visitor whose timer is 0 and
  whose arrays have one entry per vertex, and each with any sufficient stack budget, end
  with the same \<open>time_in\<close>, \<open>time_out\<close> and timer (whatever the arrays held before). Both
  runs return, twice the vertex count fitting an \<^verbatim>\<open>int\<close>.
\<close>

theorem timestamps_deterministic:
  assumes "wf_graph g" "start = - 1 \<or> in_range (vertices g) start"
    and "length (vertices g) \<le> depth1" "length (vertices g) \<le> depth2"
    and "timer s1 = 0" "length (time_in s1) = length (vertices g)"
      "length (time_out s1) = length (vertices g)"
    and "timer s2 = 0" "length (time_in s2) = length (vertices g)"
      "length (time_out s2) = length (vertices g)"
    and "2 * int (length (vertices g)) \<le> INT_MAX"
  shows "\<exists>tv1 tv2. DepthFirstSearch Colormap_class depth1 g time_dfs_visitor s1 start = Inr tv1 \<and>
    DepthFirstSearch Colormap_class depth2 g time_dfs_visitor s2 start = Inr tv2 \<and>
    time_in tv1 = time_in tv2 \<and> time_out tv1 = time_out tv2 \<and> timer tv1 = timer tv2"
proof -
  let ?V = "length (vertices g)"
  from traversal_exists [OF assms(1,2)] obtain evs cm' where
    tr: "traversal_protocol g start evs cm'" by blast
  note cov = traversal_covers [OF assms(1) tr]
  note V = wf_graph_in_range [OF assms(1)]
  have run: "\<exists>tv. DepthFirstSearch Colormap_class depth g time_dfs_visitor s start = Inr tv \<and>
      timer tv = 2 * int ?V \<and>
      length (time_in tv) = ?V \<and> length (time_out tv) = ?V \<and>
      (\<forall>i < ?V. time_in tv ! i = stamps_in 0 (\<lambda>u. 0) evs (int i)) \<and>
      (\<forall>i < ?V. time_out tv ! i = stamps_out 0 (\<lambda>u. 0) evs (int i))"
    if s: "timer s = 0" "length (time_in s) = ?V" "length (time_out s) = ?V" and d: "?V \<le> depth"
    for s depth
  proof -
    have "\<forall>u \<in> set (discovered evs). in_range (time_in s) u"
      using cov(1) V(2) s(2) by (simp add: in_range_def)
    moreover have "\<forall>u \<in> set (finished evs). in_range (time_out s) u"
      using cov(3) V(2) s(3) by (simp add: in_range_def)
    moreover have "timer s + ticks evs \<le> INT_MAX" using cov(7) s(1) assms(11) by simp
    ultimately obtain tv where tv: "replay time_dfs_visitor evs s = Inr tv"
      "timer tv = timer s + ticks evs"
      "length (time_in tv) = length (time_in s)" "length (time_out tv) = length (time_out s)"
      "\<forall>i < length (time_in s). time_in tv ! i
          = stamps_in (timer s) (\<lambda>u. time_in s ! nat u) evs (int i)"
      "\<forall>i < length (time_out s). time_out tv ! i
          = stamps_out (timer s) (\<lambda>u. time_out s ! nat u) evs (int i)"
      using replay_time [of evs s "\<lambda>u. time_in s ! nat u" "\<lambda>u. time_out s ! nat u"]
      by auto
    have "DepthFirstSearch_run Colormap_class depth g time_dfs_visitor s start = Inr (cm', tv)"
      using tr d tv(1) by (rule traversal_complete)
    then have 1: "DepthFirstSearch Colormap_class depth g time_dfs_visitor s start = Inr tv"
      by (rule DepthFirstSearch_of_run)
    have 2: "time_in tv ! i = stamps_in 0 (\<lambda>u. 0) evs (int i)" if "i < ?V" for i
    proof -
      have "int i \<in> set (discovered evs)" using cov(1) int_vertex [OF assms(1) that] by simp
      from stamps_in_fresh [OF this] tv(5) that s show ?thesis by simp
    qed
    have 3: "time_out tv ! i = stamps_out 0 (\<lambda>u. 0) evs (int i)" if "i < ?V" for i
    proof -
      have "int i \<in> set (finished evs)" using cov(3) int_vertex [OF assms(1) that] by simp
      from stamps_out_fresh [OF this] tv(6) that s show ?thesis by simp
    qed
    from 1 2 3 tv(2,3,4) s cov(7) show ?thesis by auto
  qed
  from run [OF assms(5,6,7,3)] obtain tv1 where
    1: "DepthFirstSearch Colormap_class depth1 g time_dfs_visitor s1 start = Inr tv1"
    "timer tv1 = 2 * int ?V" "length (time_in tv1) = ?V" "length (time_out tv1) = ?V"
    "\<forall>i < ?V. time_in tv1 ! i = stamps_in 0 (\<lambda>u. 0) evs (int i)"
    "\<forall>i < ?V. time_out tv1 ! i = stamps_out 0 (\<lambda>u. 0) evs (int i)"
    by blast
  from run [OF assms(8,9,10,4)] obtain tv2 where
    2: "DepthFirstSearch Colormap_class depth2 g time_dfs_visitor s2 start = Inr tv2"
    "timer tv2 = 2 * int ?V" "length (time_in tv2) = ?V" "length (time_out tv2) = ?V"
    "\<forall>i < ?V. time_in tv2 ! i = stamps_in 0 (\<lambda>u. 0) evs (int i)"
    "\<forall>i < ?V. time_out tv2 ! i = stamps_out 0 (\<lambda>u. 0) evs (int i)"
    by blast
  have "time_in tv1 = time_in tv2" using 1(3,5) 2(3,5) by (simp add: list_eq_iff_nth_eq)
  moreover have "time_out tv1 = time_out tv2" using 1(4,6) 2(4,6) by (simp add: list_eq_iff_nth_eq)
  ultimately show ?thesis using 1(1,2) 2(1,2) by auto
qed

theorem timestamps_deterministic_witness:
  "wf_graph \<lparr>vertices = [0, 1],
      outgoing_edges = [[], [\<lparr>source = 1, destination = 0\<rparr>]]\<rparr> \<and>
   (\<exists>tv1 tv2. DepthFirstSearch Colormap_class 2 \<lparr>vertices = [0, 1],
      outgoing_edges = [[], [\<lparr>source = 1, destination = 0\<rparr>]]\<rparr> time_dfs_visitor
        (TimeDFSVisitor_new 2) 1 = Inr tv1 \<and>
      DepthFirstSearch Colormap_class 5 \<lparr>vertices = [0, 1],
      outgoing_edges = [[], [\<lparr>source = 1, destination = 0\<rparr>]]\<rparr> time_dfs_visitor
        \<lparr>timer = 0, time_in = [7, 7], time_out = [9, 9]\<rparr> 1 = Inr tv2 \<and>
      time_in tv1 = time_in tv2 \<and> time_out tv1 = time_out tv2 \<and> timer tv1 = timer tv2)"
proof -
  let ?g = "\<lparr>vertices = [0, 1],
      outgoing_edges = [[], [\<lparr>source = 1, destination = 0\<rparr>]]\<rparr>"
  let ?s2 = "\<lparr>timer = 0, time_in = [7, 7], time_out = [9, 9]\<rparr>"
  have h1: "wf_graph ?g" by code_simp
  have h2: "(1::int) = - 1 \<or> in_range (vertices ?g) 1" by (simp add: in_range_def)
  have h3: "length (vertices ?g) \<le> 2" "length (vertices ?g) \<le> 5" by simp_all
  have h4: "timer (TimeDFSVisitor_new 2) = 0"
    "length (time_in (TimeDFSVisitor_new 2)) = length (vertices ?g)"
    "length (time_out (TimeDFSVisitor_new 2)) = length (vertices ?g)"
    by simp_all
  have h5: "timer ?s2 = 0" "length (time_in ?s2) = length (vertices ?g)"
    "length (time_out ?s2) = length (vertices ?g)"
    by simp_all
  have h6: "2 * int (length (vertices ?g)) \<le> INT_MAX" by (simp add: INT_MAX_def)
  from timestamps_deterministic [OF h1 h2 h3 h4 h5 h6] h1 show ?thesis by blast
qed

section \<open>The graph built by the driver\<close>

lemma wf_parentsD: "wf_parents ps \<Longrightarrow> c < length ps \<Longrightarrow> 0 \<le> ps ! c \<and> ps ! c \<le> int (length ps)"
  by (simp add: wf_parents_def list_all_length)

lemma edges_of_parents_Suc:
  "edges_of_parents ps (Suc k) p =
     edges_of_parents ps k p @ (if ps ! k = p + 1 then [\<lparr>source = p, destination = int k\<rparr>] else [])"
  by (simp add: edges_of_parents_def)

lemma graph_of_parents_0: "graph_of_parents ps 0 = Graph_new (length ps)"
  by (simp add: graph_of_parents_def Graph_new_def edges_of_parents_def map_replicate_const)

lemma graph_of_parents_root:
  "ps ! k = 0 \<Longrightarrow> graph_of_parents ps (Suc k) = graph_of_parents ps k"
  by (simp add: graph_of_parents_def edges_of_parents_Suc)

lemma graph_of_parents_AddEdge:
  assumes "1 \<le> ps ! k" "ps ! k \<le> int (length ps)"
  shows "AddEdge (graph_of_parents ps k) \<lparr>source = ps ! k - 1, destination = int k\<rparr>
    = Inr (graph_of_parents ps (Suc k))"
proof -
  let ?q = "nat (ps ! k - 1)"
  let ?oe = "map (\<lambda>p. edges_of_parents ps k (int p)) [0..<length ps]"
  have q: "?q < length ps" "int ?q = ps ! k - 1" using assms by auto
  have rng: "in_range ?oe (ps ! k - 1)" using assms by (simp add: in_range_def)
  have "?oe[?q := ?oe ! ?q @ [\<lparr>source = ps ! k - 1, destination = int k\<rparr>]]
      = map (\<lambda>p. edges_of_parents ps (Suc k) (int p)) [0..<length ps]"
  proof (rule nth_equalityI)
    show "length (?oe[?q := ?oe ! ?q @ [\<lparr>source = ps ! k - 1, destination = int k\<rparr>]])
        = length (map (\<lambda>p. edges_of_parents ps (Suc k) (int p)) [0..<length ps])"
      by simp
  next
    fix i assume "i < length (?oe[?q := ?oe ! ?q @ [\<lparr>source = ps ! k - 1, destination = int k\<rparr>]])"
    then have i: "i < length ps" by simp
    show "?oe[?q := ?oe ! ?q @ [\<lparr>source = ps ! k - 1, destination = int k\<rparr>]] ! i
        = map (\<lambda>p. edges_of_parents ps (Suc k) (int p)) [0..<length ps] ! i"
    proof (cases "i = ?q")
      case True
      then show ?thesis using q by (simp add: edges_of_parents_Suc)
    next
      case False
      then have "ps ! k \<noteq> int i + 1" using q by auto
      with False i show ?thesis by (simp add: edges_of_parents_Suc)
    qed
  qed
  then show ?thesis
    using rng by (simp add: AddEdge_def graph_of_parents_def vec_get_in_range vec_set_in_range)
qed

lemma read_parents_graph:
  assumes wf: "wf_parents ps"
  shows "k \<le> length ps \<Longrightarrow>
    read_parents (graph_of_parents ps k) st (int k) (drop k ps)
      = Inr (graph_of_parents ps (length ps), last_root st (int k) (drop k ps))"
proof (induction "length ps - k" arbitrary: k st)
  case 0
  then show ?case by simp
next
  case (Suc n)
  then have k: "k < length ps" and n: "n = length ps - Suc k" by simp_all
  have d: "drop k ps = ps ! k # drop (Suc k) ps" using k by (simp add: Cons_nth_drop_Suc)
  have ik: "int k + 1 = int (Suc k)" by simp
  show ?case
  proof (cases "ps ! k = 0")
    case True
    with Suc.hyps(1) [OF n, of "int k"] k show ?thesis
      unfolding d by (simp add: graph_of_parents_root ik del: of_nat_Suc)
  next
    case False
    with wf_parentsD [OF wf k] have "1 \<le> ps ! k" "ps ! k \<le> int (length ps)" by auto
    from graph_of_parents_AddEdge [OF this] Suc.hyps(1) [OF n, of st] k False show ?thesis
      unfolding d by (simp add: ik del: of_nat_Suc)
  qed
qed

lemma read_parents_result:
  assumes "wf_parents ps"
  shows "read_parents (Graph_new (length ps)) (- 1) 0 ps
    = Inr (graph_of_parents ps (length ps), last_root (- 1) 0 ps)"
  using read_parents_graph [OF assms, of 0 "- 1"] by (simp add: graph_of_parents_0)

lemma outgoing_of_parents:
  "p < length ps \<Longrightarrow>
   outgoing_edges (graph_of_parents ps (length ps)) ! p = edges_of_parents ps (length ps) (int p)"
  by (simp add: graph_of_parents_def)

lemma edge_of_parents_iff:
  "e \<in> set (edges_of_parents ps k p) \<longleftrightarrow>
     source e = p \<and> (\<exists>c < k. destination e = int c \<and> ps ! c = p + 1)"
  by (cases e) (auto simp: edges_of_parents_def)

lemma wf_graph_of_parents:
  assumes "wf_parents ps"
  shows "wf_graph (graph_of_parents ps (length ps))"
proof -
  let ?g = "graph_of_parents ps (length ps)"
  have len: "length (outgoing_edges ?g) = length ps" by (simp add: graph_of_parents_def)
  have "source e = int v \<and> in_range (outgoing_edges ?g) (destination e)"
    if "(v, es) \<in> set (enumerate 0 (outgoing_edges ?g))" "e \<in> set es" for v es e
  proof -
    from that(1) have v: "v < length ps" "es = outgoing_edges ?g ! v"
      by (auto simp: in_set_enumerate_eq len)
    with that(2) have "e \<in> set (edges_of_parents ps (length ps) (int v))"
      by (simp add: outgoing_of_parents)
    then show ?thesis by (auto simp: edge_of_parents_iff in_range_def len)
  qed
  then show ?thesis
    unfolding wf_graph_def list_all_iff by (auto simp: graph_of_parents_def)
qed

lemma succs_of_parents:
  assumes "wf_parents ps"
  shows "succs (graph_of_parents ps (length ps)) = parent_rel ps"
proof -
  let ?g = "graph_of_parents ps (length ps)"
  have len: "length (outgoing_edges ?g) = length ps" by (simp add: graph_of_parents_def)
  show ?thesis
  proof (rule set_eqI, clarify)
    fix p c
    show "(p, c) \<in> succs ?g \<longleftrightarrow> (p, c) \<in> parent_rel ps"
    proof
      assume "(p, c) \<in> succs ?g"
      then obtain v e where "p = int v" "c = destination e" "v < length ps"
        "e \<in> set (outgoing_edges ?g ! v)"
        by (auto simp: succs_def len)
      then show "(p, c) \<in> parent_rel ps"
        by (auto simp: outgoing_of_parents edge_of_parents_iff parent_rel_def in_range_def)
    next
      assume "(p, c) \<in> parent_rel ps"
      then have pc: "0 \<le> p" "0 \<le> c" "nat c < length ps" "ps ! nat c = p + 1"
        by (auto simp: parent_rel_def in_range_def)
      with wf_parentsD [OF assms pc(3)] have p: "nat p < length ps" by auto
      have "\<lparr>source = p, destination = c\<rparr> \<in> set (outgoing_edges ?g ! nat p)"
        using pc p by (auto simp: outgoing_of_parents edge_of_parents_iff intro!: exI [of _ "nat c"])
      then have "(int (nat p), destination \<lparr>source = p, destination = c\<rparr>) \<in> succs ?g"
        unfolding succs_def using p len by (metis (mono_tags, lifting) mem_Collect_eq)
      then show "(p, c) \<in> succs ?g" using pc(1) by simp
    qed
  qed
qed

lemma distinct_children_of_parents:
  "es \<in> set (outgoing_edges (graph_of_parents ps (length ps))) \<Longrightarrow> distinct (map destination es)"
  by (auto simp: graph_of_parents_def edges_of_parents_def o_def distinct_map inj_on_def)

lemma last_root_no_root: "0 \<notin> set rest \<Longrightarrow> last_root st k rest = st"
  by (induction rest arbitrary: st k) auto

lemma last_root_some_root:
  "0 \<in> set rest \<Longrightarrow> \<exists>j < length rest. last_root st k rest = k + int j \<and> rest ! j = 0"
proof (induction rest arbitrary: st k)
  case Nil
  then show ?case by simp
next
  case (Cons p rest)
  show ?case
  proof (cases "0 \<in> set rest")
    case True
    from Cons.IH [OF True, of "if p = 0 then k else st" "k + 1"] obtain j where
      "j < length rest" "last_root (if p = 0 then k else st) (k + 1) rest = k + 1 + int j"
      "rest ! j = 0" by blast
    then show ?thesis by (intro exI [of _ "Suc j"]) simp
  next
    case False
    with Cons.prems have "p = 0" by simp
    with False show ?thesis by (intro exI [of _ 0]) (simp add: last_root_no_root)
  qed
qed

lemma last_root_start:
  "last_root (- 1) 0 ps = - 1 \<or> in_range ps (last_root (- 1) 0 ps)"
proof (cases "0 \<in> set ps")
  case True
  from last_root_some_root [OF this, of "- 1" 0] show ?thesis by (auto simp: in_range_def)
next
  case False
  then show ?thesis by (simp add: last_root_no_root)
qed

lemma vertices_of_parents [simp]:
  "vertices (graph_of_parents ps k) = map int [0..<length ps]"
  by (simp add: graph_of_parents_def)

lemma start_of_parents:
  "last_root (- 1) 0 ps = - 1 \<or>
     in_range (vertices (graph_of_parents ps (length ps))) (last_root (- 1) 0 ps)"
  using last_root_start [of ps] by (simp add: in_range_def)

section \<open>Input without a root\<close>

lemma protocol_events_in_range:
  "visit_protocol g cm v evs cm' \<Longrightarrow> wf_graph g \<Longrightarrow>
      \<forall>ev \<in> set evs. \<forall>u \<in> set (event_vertices ev). in_range (outgoing_edges g) u"
  "edges_protocol g cm es evs cm' \<Longrightarrow> wf_graph g \<Longrightarrow>
      \<forall>e \<in> set es. in_range (outgoing_edges g) (source e) \<and>
          in_range (outgoing_edges g) (destination e) \<Longrightarrow>
      \<forall>ev \<in> set evs. \<forall>u \<in> set (event_vertices ev). in_range (outgoing_edges g) u"
proof (induction rule: visit_protocol_edges_protocol.inducts)
  case (visit cm v g evs cm1)
  have v: "nat v < length (outgoing_edges g)" "int (nat v) = v"
    using visit.hyps(2) by (auto simp: in_range_def)
  have "\<forall>e \<in> set (outgoing_edges g ! nat v). in_range (outgoing_edges g) (source e) \<and>
          in_range (outgoing_edges g) (destination e)"
    using wf_graphD [OF visit.prems v(1)] v(2) visit.hyps(2) by simp
  with visit.IH visit.prems have
    "\<forall>ev \<in> set evs. \<forall>u \<in> set (event_vertices ev). in_range (outgoing_edges g) u"
    by blast
  with visit.hyps(2) show ?case by auto
next
  case (edges_done g cm)
  show ?case by simp
next
  case (tree_edge cm e g evs1 cm1 es evs2 cm2)
  have 1: "\<forall>ev \<in> set evs1. \<forall>u \<in> set (event_vertices ev). in_range (outgoing_edges g) u"
    using tree_edge.IH(1) tree_edge.prems(1) by blast
  have 2: "\<forall>ev \<in> set evs2. \<forall>u \<in> set (event_vertices ev). in_range (outgoing_edges g) u"
    using tree_edge.IH(2) tree_edge.prems by simp
  have 3: "in_range (outgoing_edges g) (source e) \<and> in_range (outgoing_edges g) (destination e)"
    using tree_edge.prems(2) by simp
  show ?case using 1 2 3 by auto
next
  case (back_edge cm e g es evs2 cm2)
  have 2: "\<forall>ev \<in> set evs2. \<forall>u \<in> set (event_vertices ev). in_range (outgoing_edges g) u"
    using back_edge.IH back_edge.prems by simp
  have 3: "in_range (outgoing_edges g) (source e) \<and> in_range (outgoing_edges g) (destination e)"
    using back_edge.prems(2) by simp
  show ?case using 2 3 by auto
next
  case (forward_or_cross_edge cm e g es evs2 cm2)
  have 2: "\<forall>ev \<in> set evs2. \<forall>u \<in> set (event_vertices ev). in_range (outgoing_edges g) u"
    using forward_or_cross_edge.IH forward_or_cross_edge.prems by simp
  have 3: "in_range (outgoing_edges g) (source e) \<and> in_range (outgoing_edges g) (destination e)"
    using forward_or_cross_edge.prems(2) by simp
  show ?case using 2 3 by auto
qed

lemma sweep_events_in_range:
  "sweep_protocol g cm vs evs cm' \<Longrightarrow> wf_graph g \<Longrightarrow> length cm = length (outgoing_edges g) \<Longrightarrow>
      \<forall>ev \<in> set evs. \<forall>u \<in> set (event_vertices ev). in_range (outgoing_edges g) u"
proof (induction rule: sweep_protocol.induct)
  case (sweep_done g cm)
  show ?case by simp
next
  case (sweep_visit cm v g evs1 cm1 vs evs2 cm2)
  have "length cm1 = length (outgoing_edges g)"
    using visit_recolored [OF sweep_visit.hyps(3,2)] sweep_visit.prems(2)
    by (simp add: recolored_def)
  moreover have "in_range (outgoing_edges g) v"
    using sweep_visit.hyps(1) sweep_visit.prems(2) by (simp add: in_range_def)
  ultimately show ?case
    using protocol_events_in_range(1) [OF sweep_visit.hyps(3) sweep_visit.prems(1)]
      sweep_visit.IH sweep_visit.prems(1)
    by auto
next
  case (sweep_skip cm v g vs evs2 cm2)
  then show ?case by simp
qed

lemma traversal_events_in_range:
  "traversal_protocol g start evs cm' \<Longrightarrow> wf_graph g \<Longrightarrow>
     \<forall>ev \<in> set evs. \<forall>u \<in> set (event_vertices ev). in_range (vertices g) u"
proof (induction rule: traversal_protocol.induct)
  case (with_start start g evs1 cm1 evs2 cm2)
  note V = wf_graph_in_range [OF with_start.prems]
  have eq: "in_range (outgoing_edges g) u = in_range (vertices g) u" for u
    by (simp add: in_range_def V(1))
  let ?cm0 = "replicate (length (vertices g)) kWhite"
  have s: "in_range ?cm0 start"
    using with_start.hyps(3) by (auto elim: visit_protocol.cases)
  then have w: "?cm0 ! nat start = kWhite" by (auto simp: in_range_def)
  have s': "in_range (vertices g) start" using s by (simp add: in_range_def)
  have "length cm1 = length (outgoing_edges g)"
    using visit_recolored [OF with_start.hyps(3) w] V(1) by (simp add: recolored_def)
  note sw = sweep_events_in_range [OF with_start.hyps(4) with_start.prems this, unfolded eq]
  note vi = protocol_events_in_range(1) [OF with_start.hyps(3) with_start.prems, unfolded eq]
  show ?case
  proof (intro ballI)
    fix ev u
    assume ev: "ev \<in> set (map OnInitializeVertex (vertices g) @ OnStartVertex start # evs1 @ evs2)"
      and u: "u \<in> set (event_vertices ev)"
    from ev consider x where "ev = OnInitializeVertex x" "x \<in> set (vertices g)"
      | "ev = OnStartVertex start" | "ev \<in> set evs1" | "ev \<in> set evs2"
      by auto
    then show "in_range (vertices g) u"
    proof cases
      case 1
      with u with_start.hyps(2) show ?thesis by simp
    next
      case 2
      with u s' show ?thesis by simp
    next
      case 3
      with u vi show ?thesis by blast
    next
      case 4
      with u sw show ?thesis by blast
    qed
  qed
next
  case (without_start g evs2 cm2)
  note V = wf_graph_in_range [OF without_start.prems]
  have eq: "in_range (outgoing_edges g) u = in_range (vertices g) u" for u
    by (simp add: in_range_def V(1))
  have "length (replicate (length (vertices g)) kWhite) = length (outgoing_edges g)"
    using V(1) by simp
  note sw = sweep_events_in_range [OF without_start.hyps(2) without_start.prems this, unfolded eq]
  show ?case
  proof (intro ballI)
    fix ev u
    assume ev: "ev \<in> set (map OnInitializeVertex (vertices g) @ evs2)"
      and u: "u \<in> set (event_vertices ev)"
    from ev consider x where "ev = OnInitializeVertex x" "x \<in> set (vertices g)"
      | "ev \<in> set evs2"
      by auto
    then show "in_range (vertices g) u"
    proof cases
      case 1
      with u without_start.hyps(1) show ?thesis by simp
    next
      case 2
      with u sw show ?thesis by blast
    qed
  qed
qed

lemma traversal_timestamps_any:
  assumes wf: "wf_graph g" and tr: "traversal_protocol g start evs cm'"
    and depth: "length (vertices g) \<le> depth"
    and len: "length (time_in s) = length (vertices g)" "length (time_out s) = length (vertices g)"
    and ovf: "timer s + 2 * int (length (vertices g)) \<le> INT_MAX"
  shows "\<exists>tv. DepthFirstSearch_run Colormap_class depth g time_dfs_visitor s start = Inr (cm', tv) \<and>
    timer tv = timer s + 2 * int (length (vertices g)) \<and>
    length (time_in tv) = length (vertices g) \<and> length (time_out tv) = length (vertices g) \<and>
    (\<forall>f h. \<forall>i < length (vertices g).
       time_in tv ! i = stamps_in (timer s) f evs (int i) \<and>
       time_out tv ! i = stamps_out (timer s) h evs (int i))"
proof -
  let ?V = "length (vertices g)"
  note cov = traversal_covers [OF wf tr]
  note V = wf_graph_in_range [OF wf]
  have "\<forall>u \<in> set (discovered evs). in_range (time_in s) u"
    using cov(1) V(2) len(1) by (simp add: in_range_def)
  moreover have "\<forall>u \<in> set (finished evs). in_range (time_out s) u"
    using cov(3) V(2) len(2) by (simp add: in_range_def)
  moreover have "timer s + ticks evs \<le> INT_MAX" using cov(7) ovf by simp
  ultimately obtain tv where tv: "replay time_dfs_visitor evs s = Inr tv"
    "timer tv = timer s + ticks evs"
    "length (time_in tv) = length (time_in s)" "length (time_out tv) = length (time_out s)"
    "\<forall>i < length (time_in s). time_in tv ! i
        = stamps_in (timer s) (\<lambda>u. time_in s ! nat u) evs (int i)"
    "\<forall>i < length (time_out s). time_out tv ! i
        = stamps_out (timer s) (\<lambda>u. time_out s ! nat u) evs (int i)"
    using replay_time [of evs s "\<lambda>u. time_in s ! nat u" "\<lambda>u. time_out s ! nat u"]
    by auto
  have 1: "DepthFirstSearch_run Colormap_class depth g time_dfs_visitor s start = Inr (cm', tv)"
    using tr depth tv(1) by (rule traversal_complete)
  have 2: "time_in tv ! i = stamps_in (timer s) f evs (int i)" if "i < ?V" for i f
  proof -
    have "int i \<in> set (discovered evs)" using cov(1) int_vertex [OF wf that] by simp
    from stamps_in_fresh [OF this] tv(5) that len show ?thesis by simp
  qed
  have 3: "time_out tv ! i = stamps_out (timer s) h evs (int i)" if "i < ?V" for i h
  proof -
    have "int i \<in> set (finished evs)" using cov(3) int_vertex [OF wf that] by simp
    from stamps_out_fresh [OF this] tv(6) that len show ?thesis by simp
  qed
  from 1 2 3 tv(2,3,4) len cov(7) show ?thesis by auto
qed

lemma timestamps_of_parents:
  assumes wf: "wf_parents ps" and depth: "length ps \<le> depth"
    and tr: "traversal_protocol (graph_of_parents ps (length ps)) (last_root (- 1) 0 ps) evs cm'"
    and ovf: "2 * int (length ps) \<le> INT_MAX"
  shows "\<exists>tv. timestamps depth ps = Inr tv \<and>
    length (time_in tv) = length ps \<and> length (time_out tv) = length ps \<and>
    (\<forall>f h. \<forall>i < length ps.
       time_in tv ! i = stamps_in 0 f evs (int i) \<and>
       time_out tv ! i = stamps_out 0 h evs (int i))"
proof -
  let ?g = "graph_of_parents ps (length ps)"
  have V: "length (vertices ?g) = length ps" by simp
  from traversal_timestamps_any [OF wf_graph_of_parents [OF wf] tr, of depth
      "TimeDFSVisitor_new (length ps)"] depth ovf
  obtain tv where "DepthFirstSearch_run Colormap_class depth ?g time_dfs_visitor
      (TimeDFSVisitor_new (length ps)) (last_root (- 1) 0 ps) = Inr (cm', tv)"
    "length (time_in tv) = length ps" "length (time_out tv) = length ps"
    "\<forall>f h. \<forall>i < length ps.
       time_in tv ! i = stamps_in 0 f evs (int i) \<and>
       time_out tv ! i = stamps_out 0 h evs (int i)"
    unfolding V by auto
  moreover from this(1) have "timestamps depth ps = Inr tv"
    by (simp add: timestamps_def read_parents_result [OF wf] DepthFirstSearch_of_run)
  ultimately show ?thesis by blast
qed

lemma traversal_without_start:
  assumes "traversal_protocol g (- 1) evs cm'"
  shows "\<exists>sweep. evs = map OnInitializeVertex (vertices g) @ sweep \<and>
    sweep_protocol g (replicate (length (vertices g)) kWhite) (vertices g) sweep cm'"
  using assms by (cases rule: traversal_protocol.cases) simp_all

lemma traversal_of_parents_exists:
  assumes "wf_parents ps"
  shows "\<exists>evs cm'.
    traversal_protocol (graph_of_parents ps (length ps)) (last_root (- 1) 0 ps) evs cm'"
  using traversal_exists [OF wf_graph_of_parents [OF assms] start_of_parents] .

text \<open>
  C9. If no parent reference is 0, the input loop leaves the start at the sentinel
  \<open>- 1\<close> and the traversal consists of the initialisation and the sweep alone. No
  callback receives \<open>- 1\<close>, and no vector is indexed with it (the run returns, and an
  index of \<open>- 1\<close> would have made it fail with \<open>OutOfRange\<close>). Every vertex is still
  discovered and finished exactly once and receives both of its timestamps (twice the
  vertex count fitting an \<^verbatim>\<open>int\<close>).
\<close>

theorem no_root_skips_start_phase:
  assumes "list_all (\<lambda>p. 1 \<le> p \<and> p \<le> int (length parents)) parents"
    and "length parents \<le> depth" "2 * int (length parents) \<le> INT_MAX"
  shows "\<exists>g evs cm' sweep tv.
    read_parents (Graph_new (length parents)) (- 1) 0 parents = Inr (g, - 1) \<and>
    DepthFirstSearch_run Colormap_class depth g recording_visitor [] (- 1) = Inr (cm', evs) \<and>
    evs = map OnInitializeVertex (vertices g) @ sweep \<and>
    sweep_protocol g (replicate (length parents) kWhite) (vertices g) sweep cm' \<and>
    (\<forall>ev \<in> set evs. - 1 \<notin> set (event_vertices ev)) \<and>
    mset (discovered evs) = mset (vertices g) \<and> mset (finished evs) = mset (vertices g) \<and>
    timestamps depth parents = Inr tv \<and>
    (\<forall>v < length parents. time_in tv ! v = stamps_in 0 (\<lambda>u. 0) evs (int v) \<and>
        time_out tv ! v = stamps_out 0 (\<lambda>u. 0) evs (int v) \<and>
        0 \<le> time_in tv ! v \<and> time_in tv ! v < time_out tv ! v \<and>
        time_out tv ! v < 2 * int (length parents))"
proof -
  let ?g = "graph_of_parents parents (length parents)"
  have wf: "wf_parents parents"
    using assms(1) by (auto simp: wf_parents_def list_all_iff)
  have "0 \<notin> set parents" using assms(1) by (auto simp: list_all_iff)
  then have st: "last_root (- 1) 0 parents = - 1" by (rule last_root_no_root)
  note wfg = wf_graph_of_parents [OF wf]
  have V: "length (vertices ?g) = length parents" by simp
  from traversal_of_parents_exists [OF wf] obtain evs cm' where
    tr: "traversal_protocol ?g (- 1) evs cm'" unfolding st by blast
  from traversal_without_start [OF tr] obtain sweep where
    sw: "evs = map OnInitializeVertex (vertices ?g) @ sweep"
    "sweep_protocol ?g (replicate (length parents) kWhite) (vertices ?g) sweep cm'"
    unfolding V by blast
  have "replay recording_visitor evs [] = Inr evs" by (simp add: replay_recording)
  with tr have run: "DepthFirstSearch_run Colormap_class depth ?g recording_visitor [] (- 1) = Inr (cm', evs)"
    using assms(2) by (intro traversal_complete) simp_all
  have rng: "\<forall>ev \<in> set evs. - 1 \<notin> set (event_vertices ev)"
    using traversal_events_in_range [OF tr wfg] by (fastforce simp: in_range_def)
  have tr': "traversal_protocol ?g (last_root (- 1) 0 parents) evs cm'"
    using tr by (simp only: st)
  from timestamps_of_parents [OF wf assms(2) tr' assms(3)] obtain tv where
    tv: "timestamps depth parents = Inr tv"
    "\<And>i. i < length parents \<Longrightarrow> time_in tv ! i = stamps_in 0 (\<lambda>u. 0) evs (int i)"
    "\<And>i. i < length parents \<Longrightarrow> time_out tv ! i = stamps_out 0 (\<lambda>u. 0) evs (int i)"
    by blast
  note lam = traversal_stamps(1) [OF wfg tr, of 0 "\<lambda>u. 0" "\<lambda>u. 0"]
  note bnd = traversal_stamps(2) [OF wfg tr, of 0 "\<lambda>u. 0" "\<lambda>u. 0"]
  have b: "time_in tv ! v = stamps_in 0 (\<lambda>u. 0) evs (int v) \<and>
        time_out tv ! v = stamps_out 0 (\<lambda>u. 0) evs (int v) \<and>
        0 \<le> time_in tv ! v \<and> time_in tv ! v < time_out tv ! v \<and>
        time_out tv ! v < 2 * int (length parents)" if "v < length parents" for v
  proof -
    have "int v \<in> set (vertices ?g)" using that by simp
    with lam bnd have "0 \<le> stamps_in 0 (\<lambda>u. 0) evs (int v)"
      "stamps_in 0 (\<lambda>u. 0) evs (int v) < stamps_out 0 (\<lambda>u. 0) evs (int v)"
      "stamps_out 0 (\<lambda>u. 0) evs (int v) < 2 * int (length parents)"
      unfolding V by (auto simp: laminar_def simp del: vertices_of_parents)
    then show ?thesis using tv(2,3) that by simp
  qed
  have rp: "read_parents (Graph_new (length parents)) (- 1) 0 parents = Inr (?g, - 1)"
    using read_parents_result [OF wf] st by simp
  have b': "\<forall>v < length parents. time_in tv ! v = stamps_in 0 (\<lambda>u. 0) evs (int v) \<and>
        time_out tv ! v = stamps_out 0 (\<lambda>u. 0) evs (int v) \<and>
        0 \<le> time_in tv ! v \<and> time_in tv ! v < time_out tv ! v \<and>
        time_out tv ! v < 2 * int (length parents)"
    using b by blast
  note ex = traversal_examined(1,2) [OF wfg tr]
  show ?thesis
    by (intro exI [of _ ?g] exI [of _ evs] exI [of _ cm'] exI [of _ sweep] exI [of _ tv] conjI)
      (fact rp run sw rng ex tv(1) b')+
qed

theorem no_root_skips_start_phase_witness:
  "list_all (\<lambda>p. 1 \<le> p \<and> p \<le> int (length [2, 1 :: int])) [2, 1] \<and>
   (\<exists>g evs cm' tv. read_parents (Graph_new 2) (- 1) 0 [2, 1] = Inr (g, - 1) \<and>
      DepthFirstSearch_run Colormap_class 2 g recording_visitor [] (- 1) = Inr (cm', evs) \<and>
      mset (discovered evs) = mset (vertices g) \<and>
      timestamps 2 [2, 1] = Inr tv)"
proof -
  have h1: "list_all (\<lambda>p. 1 \<le> p \<and> p \<le> int (length [2, 1 :: int])) [2, 1]" by simp
  have h2: "length [2, 1 :: int] \<le> 2" by simp
  have h3: "length [2, 1 :: int] = 2" by simp
  have h4: "2 * int (length [2, 1 :: int]) \<le> INT_MAX" by (simp add: INT_MAX_def)
  from no_root_skips_start_phase [OF h1 h2 h4] obtain g evs cm' tv where
    "read_parents (Graph_new 2) (- 1) 0 [2, 1] = Inr (g, - 1)"
    "DepthFirstSearch_run Colormap_class 2 g recording_visitor [] (- 1) = Inr (cm', evs)"
    "mset (discovered evs) = mset (vertices g)"
    "timestamps 2 [2, 1] = Inr tv"
    unfolding h3 by blast
  with h1 show ?thesis by blast
qed

section \<open>Traversals of forests and rooted trees\<close>

lemma tree_edges_append [simp]: "tree_edges (xs @ ys) = tree_edges xs @ tree_edges ys"
  by (induction xs rule: tree_edges.induct) simp_all

lemma non_tree_edges_append [simp]:
  "non_tree_edges (xs @ ys) = non_tree_edges xs @ non_tree_edges ys"
  by (induction xs rule: non_tree_edges.induct) simp_all

lemma non_tree_edges_Initialize [simp]: "non_tree_edges (map OnInitializeVertex vs) = []"
  by (induction vs) simp_all

lemma tree_edges_Initialize [simp]: "tree_edges (map OnInitializeVertex vs) = []"
  by (induction vs) simp_all

lemma examined_Initialize [simp]: "examined (map OnInitializeVertex vs) = []"
  by (induction vs) simp_all




lemma forest_chain:
  assumes up: "\<forall>p p' c. (p, c) \<in> R \<and> (p', c) \<in> R \<longrightarrow> p = p'"
  shows "(a, x) \<in> R\<^sup>* \<Longrightarrow> (b, x) \<in> R\<^sup>* \<Longrightarrow> (a, b) \<in> R\<^sup>* \<or> (b, a) \<in> R\<^sup>*"
proof (induction arbitrary: b rule: rtrancl_induct)
  case base
  then show ?case by simp
next
  case (step y z)
  show ?case
  proof (cases "b = z")
    case True
    with step.hyps show ?thesis by auto
  next
    case False
    with step.prems obtain y' where "(b, y') \<in> R\<^sup>*" "(y', z) \<in> R"
      by (auto elim: rtranclE)
    with up step.hyps(2) have "(b, y) \<in> R\<^sup>*" by blast
    with step.IH show ?thesis by blast
  qed
qed

lemma forest_child_not_above:
  assumes "forest_graph g" "(v, c) \<in> succs g"
  shows "(c, v) \<notin> (succs g)\<^sup>*"
proof
  assume "(c, v) \<in> (succs g)\<^sup>*"
  with assms(2) have "(v, v) \<in> (succs g)\<^sup>+" by (rule rtrancl_into_trancl2)
  with assms(1) show False by (simp add: forest_graph_def)
qed

lemma forest_siblings_disjoint:
  assumes f: "forest_graph g" and c: "(v, c1) \<in> succs g" "(v, c2) \<in> succs g" "c1 \<noteq> c2"
    and x: "(c1, x) \<in> (succs g)\<^sup>*" "(c2, x) \<in> (succs g)\<^sup>*"
  shows False
proof -
  have up: "\<forall>p p' c. (p, c) \<in> succs g \<and> (p', c) \<in> succs g \<longrightarrow> p = p'"
    using f unfolding forest_graph_def by blast
  have one: False if "(a, b) \<in> (succs g)\<^sup>*" "(v, a) \<in> succs g" "(v, b) \<in> succs g" "a \<noteq> b"
    for a b
  proof -
    from that(1,4) obtain y where "(a, y) \<in> (succs g)\<^sup>*" "(y, b) \<in> succs g"
      by (auto elim: rtranclE)
    with up that(3) have "(a, v) \<in> (succs g)\<^sup>*" by blast
    with forest_child_not_above [OF f that(2)] show False by blast
  qed
  from forest_chain [of "succs g", OF up x] consider "(c1, c2) \<in> (succs g)\<^sup>*"
    | "(c2, c1) \<in> (succs g)\<^sup>*" by blast
  then show False
  proof cases
    case 1 with one [OF _ c(1,2,3)] show False by blast
  next
    case 2 with one [OF _ c(2,1)] c(3) show False by blast
  qed
qed

lemma succs_outgoing:
  assumes "in_range (outgoing_edges g) v"
  shows "(v, c) \<in> succs g \<longleftrightarrow> (\<exists>e \<in> set (outgoing_edges g ! nat v). destination e = c)"
proof
  assume "(v, c) \<in> succs g"
  then obtain v' e where "v = int v'" "c = destination e" "v' < length (outgoing_edges g)"
    "e \<in> set (outgoing_edges g ! v')"
    by (auto simp: succs_def)
  then show "\<exists>e \<in> set (outgoing_edges g ! nat v). destination e = c" by auto
next
  assume "\<exists>e \<in> set (outgoing_edges g ! nat v). destination e = c"
  then obtain e where e: "e \<in> set (outgoing_edges g ! nat v)" "destination e = c" by blast
  have v: "nat v < length (outgoing_edges g)" "int (nat v) = v"
    using assms by (auto simp: in_range_def)
  have "(int (nat v), destination e) \<in> succs g"
    unfolding succs_def using v(1) e(1) by (metis (mono_tags, lifting) mem_Collect_eq)
  then show "(v, c) \<in> succs g" using v(2) e(2) by simp
qed

lemma reach_children:
  assumes "in_range (outgoing_edges g) v"
  shows "{u. (v, u) \<in> (succs g)\<^sup>*} =
    insert v {u. \<exists>e \<in> set (outgoing_edges g ! nat v). (destination e, u) \<in> (succs g)\<^sup>*}"
proof (intro set_eqI iffI)
  fix u assume "u \<in> {u. (v, u) \<in> (succs g)\<^sup>*}"
  then have "(v, u) \<in> (succs g)\<^sup>*" by simp
  then show "u \<in> insert v {u. \<exists>e \<in> set (outgoing_edges g ! nat v).
      (destination e, u) \<in> (succs g)\<^sup>*}"
  proof (cases rule: converse_rtranclE)
    case base
    then show ?thesis by simp
  next
    case (step c)
    with succs_outgoing [OF assms, of c] show ?thesis by blast
  qed
next
  fix u assume "u \<in> insert v {u. \<exists>e \<in> set (outgoing_edges g ! nat v).
      (destination e, u) \<in> (succs g)\<^sup>*}"
  then consider "u = v" | e where "e \<in> set (outgoing_edges g ! nat v)"
    "(destination e, u) \<in> (succs g)\<^sup>*" by blast
  then show "u \<in> {u. (v, u) \<in> (succs g)\<^sup>*}"
  proof cases
    case 1
    then show ?thesis by simp
  next
    case 2
    from 2(1) have "(v, destination e) \<in> succs g" using succs_outgoing [OF assms] by blast
    with 2(2) show ?thesis by (simp add: converse_rtrancl_into_rtrancl)
  qed
qed

lemma forest_protocol:
  "visit_protocol g cm v evs cm' \<Longrightarrow> forest_graph g \<Longrightarrow>
     \<forall>u. (v, u) \<in> (succs g)\<^sup>* \<longrightarrow> in_range cm u \<and> cm ! nat u = kWhite \<Longrightarrow>
     set (discovered evs) = {u. (v, u) \<in> (succs g)\<^sup>*} \<and> non_tree_edges evs = [] \<and>
     (\<forall>t f h a u. (v, a) \<in> (succs g)\<^sup>* \<and> (a, u) \<in> (succs g)\<^sup>* \<longrightarrow>
        stamps_in t f evs a \<le> stamps_in t f evs u \<and> stamps_out t h evs u \<le> stamps_out t h evs a)"
  "edges_protocol g cm es evs cm' \<Longrightarrow> forest_graph g \<Longrightarrow>
     \<exists>p. \<forall>e \<in> set es. (p, destination e) \<in> succs g \<Longrightarrow>
     distinct (map destination es) \<Longrightarrow>
     \<forall>e \<in> set es. \<forall>u. (destination e, u) \<in> (succs g)\<^sup>* \<longrightarrow>
        in_range cm u \<and> cm ! nat u = kWhite \<Longrightarrow>
     set (discovered evs) = {u. \<exists>e \<in> set es. (destination e, u) \<in> (succs g)\<^sup>*} \<and>
     non_tree_edges evs = [] \<and>
     (\<forall>t f h a u. (\<exists>e \<in> set es. (destination e, a) \<in> (succs g)\<^sup>*) \<and> (a, u) \<in> (succs g)\<^sup>* \<longrightarrow>
        stamps_in t f evs a \<le> stamps_in t f evs u \<and> stamps_out t h evs u \<le> stamps_out t h evs a)"
proof (induction rule: visit_protocol_edges_protocol.inducts)
  case (visit cm v g evs cm1)
  let ?es = "outgoing_edges g ! nat v"
  let ?R = "succs g"
  note f = visit.prems(1)
  have vr: "nat v < length cm" "0 \<le> v" using visit.hyps(1) by (auto simp: in_range_def)
  have a: "\<forall>e \<in> set ?es. (v, destination e) \<in> ?R"
    using succs_outgoing [OF visit.hyps(2)] by blast
  have "?es \<in> set (outgoing_edges g)"
    using visit.hyps(2) by (auto simp: in_range_def)
  with f have b: "distinct (map destination ?es)" by (simp add: forest_graph_def)
  have c: "\<forall>e \<in> set ?es. \<forall>u. (destination e, u) \<in> ?R\<^sup>* \<longrightarrow>
      in_range (cm[nat v := kGray]) u \<and> cm[nat v := kGray] ! nat u = kWhite"
  proof (intro ballI allI impI)
    fix e u assume e: "e \<in> set ?es" and u: "(destination e, u) \<in> ?R\<^sup>*"
    from a e have ve: "(v, destination e) \<in> ?R" by blast
    with u have "(v, u) \<in> ?R\<^sup>*" by (simp add: converse_rtrancl_into_rtrancl)
    with visit.prems(2) have w: "in_range cm u" "cm ! nat u = kWhite" by blast+
    have "u \<noteq> v" using forest_child_not_above [OF f ve] u by blast
    with w(1) vr(2) have "nat u \<noteq> nat v" by (auto simp: in_range_def)
    with w show "in_range (cm[nat v := kGray]) u \<and> cm[nat v := kGray] ! nat u = kWhite"
      by simp
  qed
  from visit.IH [OF f _ b c] a have
    D: "set (discovered evs) = {u. \<exists>e \<in> set ?es. (destination e, u) \<in> ?R\<^sup>*}" and
    N: "non_tree_edges evs = []" and
    C: "\<And>t f h a u. \<exists>e \<in> set ?es. (destination e, a) \<in> ?R\<^sup>* \<Longrightarrow> (a, u) \<in> ?R\<^sup>* \<Longrightarrow>
        stamps_in t f evs a \<le> stamps_in t f evs u \<and> stamps_out t h evs u \<le> stamps_out t h evs a"
    by blast+
  note rv = reach_children [OF visit.hyps(2)]
  have "cm[nat v := kGray] ! nat v \<noteq> kWhite" using vr(1) by simp
  note nd = edges_not_discovered [OF visit.hyps(3) this]
  note fs = edges_finished_set [OF visit.hyps(3)]
  have below: "x \<noteq> v" if "x \<in> set (discovered evs)" for x
    using that nd(1) by blast
  have 1: "set (discovered (OnDiscoverVertex v # evs @ [OnFinishVertex v])) = {u. (v, u) \<in> ?R\<^sup>*}"
    unfolding rv using D by simp
  have 2: "non_tree_edges (OnDiscoverVertex v # evs @ [OnFinishVertex v]) = []"
    using N by simp
  have 3: "stamps_in t f' (OnDiscoverVertex v # evs @ [OnFinishVertex v]) a
        \<le> stamps_in t f' (OnDiscoverVertex v # evs @ [OnFinishVertex v]) u \<and>
      stamps_out t h (OnDiscoverVertex v # evs @ [OnFinishVertex v]) u
        \<le> stamps_out t h (OnDiscoverVertex v # evs @ [OnFinishVertex v]) a"
    if va: "(v, a) \<in> ?R\<^sup>*" and au: "(a, u) \<in> ?R\<^sup>*" for t f' h a u
    unfolding visit_trace_stamps
  proof (cases "a = v")
    case True
    show "stamps_in (t + 1) (f'(v := t)) evs a \<le> stamps_in (t + 1) (f'(v := t)) evs u \<and>
      ((stamps_out (t + 1) h evs)(v := t + 1 + ticks evs)) u
        \<le> ((stamps_out (t + 1) h evs)(v := t + 1 + ticks evs)) a"
    proof (cases "u = v")
      case True
      with \<open>a = v\<close> show ?thesis by simp
    next
      case False
      with au \<open>a = v\<close> have u: "u \<in> set (discovered evs)" using rv D by blast
      have "stamps_in (t + 1) (f'(v := t)) evs v = t" using nd(1) by (simp add: stamps_in_other)
      moreover have "t + 1 \<le> stamps_in (t + 1) (f'(v := t)) evs u"
        using stamps_in_bounds [OF u] by blast
      moreover have "stamps_out (t + 1) h evs u < t + 1 + ticks evs"
        using stamps_out_bounds [of u evs "t + 1" h] u fs by blast
      ultimately show ?thesis using False \<open>a = v\<close> by simp
    qed
  next
    case False
    with va have "a \<in> {u. \<exists>e \<in> set ?es. (destination e, u) \<in> ?R\<^sup>*}" using rv by blast
    then have ea: "\<exists>e \<in> set ?es. (destination e, a) \<in> ?R\<^sup>*" by simp
    then have "\<exists>e \<in> set ?es. (destination e, u) \<in> ?R\<^sup>*" using au by (meson rtrancl_trans)
    then have "u \<in> set (discovered evs)" using D by simp
    then have "u \<noteq> v" by (rule below)
    with C [OF ea au, of "t + 1" "f'(v := t)" h] False
    show "stamps_in (t + 1) (f'(v := t)) evs a \<le> stamps_in (t + 1) (f'(v := t)) evs u \<and>
      ((stamps_out (t + 1) h evs)(v := t + 1 + ticks evs)) u
        \<le> ((stamps_out (t + 1) h evs)(v := t + 1 + ticks evs)) a"
      by simp
  qed
  from 1 2 3 show ?case by blast
next
  case (edges_done g cm)
  show ?case by simp
next
  case (tree_edge cm e g evs1 cm1 es evs2 cm2)
  let ?R = "succs g"
  note f = tree_edge.prems(1)
  from tree_edge.prems(2) obtain p where
    p: "(p, destination e) \<in> ?R" "\<forall>e' \<in> set es. (p, destination e') \<in> ?R" by auto
  have w1: "\<forall>u. (destination e, u) \<in> ?R\<^sup>* \<longrightarrow> in_range cm u \<and> cm ! nat u = kWhite"
    using tree_edge.prems(4) by simp
  from tree_edge.IH(1) [OF f w1] have
    D1: "set (discovered evs1) = {u. (destination e, u) \<in> ?R\<^sup>*}" and
    N1: "non_tree_edges evs1 = []" and
    C1: "\<And>t f h a u. (destination e, a) \<in> ?R\<^sup>* \<Longrightarrow> (a, u) \<in> ?R\<^sup>* \<Longrightarrow>
        stamps_in t f evs1 a \<le> stamps_in t f evs1 u \<and>
        stamps_out t h evs1 u \<le> stamps_out t h evs1 a"
    by blast+
  have rc1: "recolored cm cm1" using tree_edge.hyps(3,2) by (rule visit_recolored)
  have dist: "distinct (map destination es)" "\<forall>e' \<in> set es. destination e' \<noteq> destination e"
    using tree_edge.prems(3) by (auto simp: image_iff)
  have w2: "\<forall>e' \<in> set es. \<forall>u. (destination e', u) \<in> ?R\<^sup>* \<longrightarrow>
      in_range cm1 u \<and> cm1 ! nat u = kWhite"
  proof (intro ballI allI impI)
    fix e' u assume e': "e' \<in> set es" and u: "(destination e', u) \<in> ?R\<^sup>*"
    with tree_edge.prems(4) have w: "in_range cm u" "cm ! nat u = kWhite" by auto
    from e' p(2) dist(2) have pe: "(p, destination e') \<in> ?R" "destination e \<noteq> destination e'"
      by auto
    have "(destination e, u) \<notin> ?R\<^sup>*"
      using forest_siblings_disjoint [OF f p(1) pe _ u] by blast
    then have "u \<notin> set (discovered evs1)" using D1 by simp
    moreover have "nat u < length cm" "int (nat u) = u" using w(1) by (auto simp: in_range_def)
    ultimately have "cm1 ! nat u = cm ! nat u"
      using protocol_changed_discovered(1) [OF tree_edge.hyps(3)] tree_edge.hyps(2)
      by (metis)
    with w show "in_range cm1 u \<and> cm1 ! nat u = kWhite"
      by (simp add: recolored_in_range [OF rc1])
  qed
  have pp: "\<exists>p. \<forall>e' \<in> set es. (p, destination e') \<in> ?R" using p(2) by blast
  from tree_edge.IH(2) [OF f pp dist(1) w2] have
    D2: "set (discovered evs2) = {u. \<exists>e' \<in> set es. (destination e', u) \<in> ?R\<^sup>*}" and
    N2: "non_tree_edges evs2 = []" and
    C2: "\<And>t f h a u. \<exists>e' \<in> set es. (destination e', a) \<in> ?R\<^sup>* \<Longrightarrow> (a, u) \<in> ?R\<^sup>* \<Longrightarrow>
        stamps_in t f evs2 a \<le> stamps_in t f evs2 u \<and>
        stamps_out t h evs2 u \<le> stamps_out t h evs2 a"
    by blast+
  note dj = visit_then_edges_disjoint [OF tree_edge.hyps(3,2,4)]
  note fs2 = edges_finished_set [OF tree_edge.hyps(4)]
  let ?T = "OnExamineEdge e # evs1 @ OnTreeEdge e # OnFinishEdge e # evs2"
  have 1: "set (discovered ?T) = {u. \<exists>e' \<in> set (e # es). (destination e', u) \<in> ?R\<^sup>*}"
    using D1 D2 by auto
  have 2: "non_tree_edges ?T = []" using N1 N2 by simp
  have 3: "stamps_in t f' ?T a \<le> stamps_in t f' ?T u \<and> stamps_out t h ?T u \<le> stamps_out t h ?T a"
    if ea: "\<exists>e' \<in> set (e # es). (destination e', a) \<in> ?R\<^sup>*" and au: "(a, u) \<in> ?R\<^sup>*"
    for t f' h a u
    unfolding tree_edge_trace_stamps
  proof (cases "(destination e, a) \<in> ?R\<^sup>*")
    case True
    then have "(destination e, u) \<in> ?R\<^sup>*" using au by (rule rtrancl_trans)
    with True have "a \<in> set (discovered evs1)" "u \<in> set (discovered evs1)" using D1 by simp_all
    then have "a \<notin> set (discovered evs2)" "u \<notin> set (discovered evs2)"
      "a \<notin> set (finished evs2)" "u \<notin> set (finished evs2)"
      using dj fs2 by blast+
    with C1 [OF True au, of t f' h]
    show "stamps_in (t + ticks evs1) (stamps_in t f' evs1) evs2 a
        \<le> stamps_in (t + ticks evs1) (stamps_in t f' evs1) evs2 u \<and>
      stamps_out (t + ticks evs1) (stamps_out t h evs1) evs2 u
        \<le> stamps_out (t + ticks evs1) (stamps_out t h evs1) evs2 a"
      by (simp add: stamps_in_other stamps_out_other)
  next
    case False
    with ea have "\<exists>e' \<in> set es. (destination e', a) \<in> ?R\<^sup>*" by auto
    from C2 [OF this au]
    show "stamps_in (t + ticks evs1) (stamps_in t f' evs1) evs2 a
        \<le> stamps_in (t + ticks evs1) (stamps_in t f' evs1) evs2 u \<and>
      stamps_out (t + ticks evs1) (stamps_out t h evs1) evs2 u
        \<le> stamps_out (t + ticks evs1) (stamps_out t h evs1) evs2 a"
      by blast
  qed
  from 1 2 3 show ?case by blast
next
  case (back_edge cm e g es evs2 cm2)
  from back_edge.prems(4) have "cm ! nat (destination e) = kWhite" by simp
  with back_edge.hyps(2) show ?case by simp
next
  case (forward_or_cross_edge cm e g es evs2 cm2)
  from forward_or_cross_edge.prems(4) have "cm ! nat (destination e) = kWhite" by simp
  with forward_or_cross_edge.hyps(2) show ?case by simp
qed

lemma parent_relD:
  "(y, v) \<in> parent_rel ps \<Longrightarrow> in_range ps v \<and> ps ! nat v \<noteq> 0 \<and> y = ps ! nat v - 1"
  by (auto simp: parent_rel_def)

lemma reaches_root_acyclic:
  "reaches_root n ps v \<Longrightarrow> (v, v) \<notin> (parent_rel ps)\<^sup>+"
proof (induction n arbitrary: v)
  case 0
  show ?case
  proof
    assume "(v, v) \<in> (parent_rel ps)\<^sup>+"
    then obtain z where "(z, v) \<in> parent_rel ps" by (auto dest: tranclD2)
    with 0 show False by (auto dest: parent_relD)
  qed
next
  case (Suc n)
  show ?case
  proof
    assume c: "(v, v) \<in> (parent_rel ps)\<^sup>+"
    then obtain z where z: "(v, z) \<in> (parent_rel ps)\<^sup>*" "(z, v) \<in> parent_rel ps"
      by (auto dest: tranclD2)
    from parent_relD [OF z(2)] Suc.prems have "reaches_root n ps z" by auto
    moreover from z(2,1) have "(z, z) \<in> (parent_rel ps)\<^sup>+" by (rule rtrancl_into_trancl2)
    ultimately show False using Suc.IH by blast
  qed
qed

lemma reaches_root_from_root:
  "reaches_root n ps v \<Longrightarrow>
   \<exists>r. in_range ps r \<and> ps ! nat r = 0 \<and> (r, v) \<in> (parent_rel ps)\<^sup>*"
proof (induction n arbitrary: v)
  case 0
  then show ?case by auto
next
  case (Suc n)
  show ?case
  proof (cases "ps ! nat v = 0")
    case True
    with Suc.prems show ?thesis by auto
  next
    case False
    with Suc.prems have rr: "reaches_root n ps (ps ! nat v - 1)" and v: "in_range ps v" by auto
    from Suc.IH [OF rr] obtain r where r: "in_range ps r" "ps ! nat r = 0"
      "(r, ps ! nat v - 1) \<in> (parent_rel ps)\<^sup>*" by blast
    have "in_range ps (ps ! nat v - 1)" using rr by (cases n) auto
    then have "(ps ! nat v - 1, v) \<in> parent_rel ps"
      using v by (simp add: parent_rel_def in_range_def)
    with r show ?thesis by (meson rtrancl.rtrancl_into_rtrancl)
  qed
qed

lemma rooted_treeD:
  assumes "rooted_tree ps"
  shows "wf_parents ps" "\<And>v. in_range ps v \<Longrightarrow> reaches_root (length ps) ps v"
    "\<And>i j. i < length ps \<Longrightarrow> j < length ps \<Longrightarrow> ps ! i = 0 \<Longrightarrow> ps ! j = 0 \<Longrightarrow> i = j"
proof -
  show "wf_parents ps" using assms by (simp add: rooted_tree_def)
  show "reaches_root (length ps) ps v" if "in_range ps v" for v
  proof -
    from that have "nat v \<in> set [0..<length ps]" "int (nat v) = v" by (auto simp: in_range_def)
    with assms show ?thesis
      unfolding rooted_tree_def acyclic_parents_def list_all_iff by metis
  qed
  have "card {i. i < length ps \<and> ps ! i = 0} = 1"
    using assms by (simp add: rooted_tree_def length_filter_conv_card)
  then obtain r where r: "{i. i < length ps \<and> ps ! i = 0} = {r}" by (auto simp: card_1_singleton_iff)
  show "i = j" if "i < length ps" "j < length ps" "ps ! i = 0" "ps ! j = 0" for i j
  proof -
    from that have "i \<in> {i. i < length ps \<and> ps ! i = 0}" "j \<in> {i. i < length ps \<and> ps ! i = 0}"
      by simp_all
    then show ?thesis unfolding r by simp
  qed
qed

lemma parent_rel_in_range: "(a, u) \<in> (parent_rel ps)\<^sup>* \<Longrightarrow> in_range ps a \<Longrightarrow> in_range ps u"
  by (induction rule: rtrancl_induct) (auto dest: parent_relD)

lemma rooted_tree_root:
  assumes "rooted_tree ps"
  shows "in_range ps (last_root (- 1) 0 ps)"
    "\<And>v. in_range ps v \<Longrightarrow> (last_root (- 1) 0 ps, v) \<in> (parent_rel ps)\<^sup>*"
proof -
  let ?r = "last_root (- 1) 0 ps"
  note t = rooted_treeD [OF assms]
  have "length (filter (\<lambda>p. p = 0) ps) = 1" using assms by (simp add: rooted_tree_def)
  then have "filter (\<lambda>p. p = 0) ps \<noteq> []" by auto
  then have "0 \<in> set ps" by (auto simp: filter_empty_conv)
  from last_root_some_root [OF this, of "- 1" 0] obtain j where
    j: "j < length ps" "?r = int j" "ps ! j = 0" by auto
  then show r: "in_range ps ?r" by (simp add: in_range_def)
  show "(?r, v) \<in> (parent_rel ps)\<^sup>*" if "in_range ps v" for v
  proof -
    from reaches_root_from_root [OF t(2) [OF that]] obtain r' where
      r': "in_range ps r'" "ps ! nat r' = 0" "(r', v) \<in> (parent_rel ps)\<^sup>*" by blast
    then have "nat r' < length ps" "int (nat r') = r'" by (auto simp: in_range_def)
    with t(3) [OF this(1) j(1) r'(2) j(3)] j(2) have "r' = ?r" by simp
    with r'(3) show ?thesis by simp
  qed
qed

lemma forest_graph_of_parents:
  assumes "rooted_tree ps"
  shows "forest_graph (graph_of_parents ps (length ps))"
proof -
  note t = rooted_treeD [OF assms]
  note R = succs_of_parents [OF t(1)]
  have "(x, x) \<notin> (parent_rel ps)\<^sup>+" for x
  proof
    assume c: "(x, x) \<in> (parent_rel ps)\<^sup>+"
    then obtain z where "(z, x) \<in> parent_rel ps" by (auto dest: tranclD2)
    then have "in_range ps x" by (auto dest: parent_relD)
    from reaches_root_acyclic [OF t(2) [OF this]] c show False by blast
  qed
  moreover have "p = p'" if "(p, c) \<in> parent_rel ps" "(p', c) \<in> parent_rel ps" for p p' c
    using that by (auto dest: parent_relD)
  ultimately show ?thesis
    unfolding forest_graph_def R using distinct_children_of_parents by blast
qed

lemma sweep_all_visited:
  "sweep_protocol g cm vs evs cm' \<Longrightarrow> \<forall>v \<in> set vs. cm ! nat v \<noteq> kWhite \<Longrightarrow>
   evs = [] \<and> cm' = cm"
  by (induction rule: sweep_protocol.induct) simp_all

lemma ticks_Initialize [simp]: "ticks (map OnInitializeVertex vs) = 0"
  by (induction vs) simp_all

lemma stamps_in_Initialize [simp]: "stamps_in t f (map OnInitializeVertex vs) = f"
  by (induction vs) simp_all

lemma stamps_out_Initialize [simp]: "stamps_out t h (map OnInitializeVertex vs) = h"
  by (induction vs) simp_all

lemma tree_traversal:
  assumes tree: "rooted_tree ps"
    and tr: "traversal_protocol (graph_of_parents ps (length ps)) (last_root (- 1) 0 ps) evs cm'"
  shows "non_tree_edges evs = []"
    "\<And>t f h a u. in_range ps a \<Longrightarrow> (a, u) \<in> (parent_rel ps)\<^sup>* \<Longrightarrow>
       stamps_in t f evs a \<le> stamps_in t f evs u \<and> stamps_out t h evs u \<le> stamps_out t h evs a"
proof -
  let ?g = "graph_of_parents ps (length ps)"
  let ?r = "last_root (- 1) 0 ps"
  let ?cm0 = "replicate (length (vertices ?g)) kWhite"
  note t = rooted_treeD [OF tree]
  note root = rooted_tree_root [OF tree]
  note R = succs_of_parents [OF t(1)]
  note f = forest_graph_of_parents [OF tree]
  have "?r \<noteq> - 1" using root(1) by (auto simp: in_range_def)
  with tr obtain evs1 cm1 evs2 where
    evs: "evs = map OnInitializeVertex (vertices ?g) @ OnStartVertex ?r # evs1 @ evs2" and
    v: "visit_protocol ?g ?cm0 ?r evs1 cm1" and
    sw: "sweep_protocol ?g cm1 (vertices ?g) evs2 cm'"
    by (cases rule: traversal_protocol.cases) auto
  have w: "\<forall>u. (?r, u) \<in> (succs ?g)\<^sup>* \<longrightarrow> in_range ?cm0 u \<and> ?cm0 ! nat u = kWhite"
  proof (intro allI impI)
    fix u assume "(?r, u) \<in> (succs ?g)\<^sup>*"
    then have "in_range ps u" unfolding R using root(1) by (rule parent_rel_in_range)
    then show "in_range ?cm0 u \<and> ?cm0 ! nat u = kWhite" by (auto simp: in_range_def)
  qed
  from forest_protocol(1) [OF v f w] have
    D: "set (discovered evs1) = {u. (?r, u) \<in> (parent_rel ps)\<^sup>*}" and
    N: "non_tree_edges evs1 = []" and
    C: "\<And>t f h a u. (?r, a) \<in> (parent_rel ps)\<^sup>* \<Longrightarrow> (a, u) \<in> (parent_rel ps)\<^sup>* \<Longrightarrow>
        stamps_in t f evs1 a \<le> stamps_in t f evs1 u \<and>
        stamps_out t h evs1 u \<le> stamps_out t h evs1 a"
    unfolding R by blast+
  have "?cm0 ! nat ?r = kWhite" using root(1) by (auto simp: in_range_def)
  note col = protocol_discovered_colors(1) [OF v, rule_format, OF this]
  have "\<forall>x \<in> set (vertices ?g). cm1 ! nat x \<noteq> kWhite"
  proof
    fix x assume "x \<in> set (vertices ?g)"
    then have "in_range ps x" by (auto simp: in_range_def)
    then have "x \<in> set (discovered evs1)" using D root(2) by simp
    with col show "cm1 ! nat x \<noteq> kWhite" by simp
  qed
  from sweep_all_visited [OF sw this] have e2: "evs2 = []" by simp
  show "non_tree_edges evs = []" unfolding evs e2 using N by (simp del: vertices_of_parents)
  show "stamps_in t f' evs a \<le> stamps_in t f' evs u \<and> stamps_out t h evs u \<le> stamps_out t h evs a"
    if "in_range ps a" "(a, u) \<in> (parent_rel ps)\<^sup>*" for t f' h a u
    using C [OF root(2) [OF that(1)] that(2), of t f' h] unfolding evs e2
    by (simp del: vertices_of_parents)
qed

section \<open>Answers to the queries\<close>


lemma answer_query_in_range:
  assumes "in_range (time_in tv) (a - 1)" "in_range (time_in tv) (v - 1)"
    "length (time_out tv) = length (time_in tv)"
  shows "answer_query tv (a, v) =
    Inr (if time_in tv ! nat (a - 1) \<le> time_in tv ! nat (v - 1) \<and>
            time_out tv ! nat (v - 1) \<le> time_out tv ! nat (a - 1)
         then ''1'' @ [CHR 0x0A] else ''0'' @ [CHR 0x0A])"
proof -
  have "in_range (time_out tv) (a - 1)" "in_range (time_out tv) (v - 1)"
    using assms by (simp_all add: in_range_def)
  with assms(1,2) show ?thesis
    by (simp add: answer_query_def Let_def vec_get_in_range)
qed

lemma output_loop:
  "\<forall>q \<in> set qs. answer_query tv q = Inr (line q) \<Longrightarrow>
   for_each (\<lambda>out q. and_then (answer_query tv q) (\<lambda>line. Inr (out @ line))) acc qs
     = Inr (acc @ concat (map line qs))"
  by (induction qs arbitrary: acc) simp_all

lemma main_output:
  assumes "timestamps depth ps = Inr tv" "\<forall>q \<in> set qs. answer_query tv q = Inr (line q)"
  shows "main depth ps qs = Inr (concat (map line qs))"
  using output_loop [OF assms(2), of "[]"] assms(1) by (simp add: main_def)

lemma driver_run:
  assumes wf: "wf_parents ps" and depth: "length ps \<le> depth"
    and ovf: "2 * int (length ps) \<le> INT_MAX"
  shows "\<exists>evs cm' tv.
    traversal_protocol (graph_of_parents ps (length ps)) (last_root (- 1) 0 ps) evs cm' \<and>
    DepthFirstSearch_run Colormap_class depth (graph_of_parents ps (length ps)) recording_visitor []
      (last_root (- 1) 0 ps) = Inr (cm', evs) \<and>
    timestamps depth ps = Inr tv \<and>
    length (time_in tv) = length ps \<and> length (time_out tv) = length ps \<and>
    (\<forall>u. in_range ps u \<longrightarrow> time_in tv ! nat u = stamps_in 0 (\<lambda>x. 0) evs u \<and>
       time_out tv ! nat u = stamps_out 0 (\<lambda>x. 0) evs u)"
proof -
  let ?g = "graph_of_parents ps (length ps)"
  from traversal_of_parents_exists [OF wf] obtain evs cm' where
    tr: "traversal_protocol ?g (last_root (- 1) 0 ps) evs cm'" by blast
  have "replay recording_visitor evs [] = Inr evs" by (simp add: replay_recording)
  with tr have run: "DepthFirstSearch_run Colormap_class depth ?g recording_visitor []
      (last_root (- 1) 0 ps) = Inr (cm', evs)"
    using depth by (intro traversal_complete) simp_all
  from timestamps_of_parents [OF wf depth tr ovf] obtain tv where
    tv: "timestamps depth ps = Inr tv" "length (time_in tv) = length ps"
    "length (time_out tv) = length ps"
    "\<And>i. i < length ps \<Longrightarrow> time_in tv ! i = stamps_in 0 (\<lambda>x. 0) evs (int i)"
    "\<And>i. i < length ps \<Longrightarrow> time_out tv ! i = stamps_out 0 (\<lambda>x. 0) evs (int i)"
    by blast
  have "time_in tv ! nat u = stamps_in 0 (\<lambda>x. 0) evs u \<and>
       time_out tv ! nat u = stamps_out 0 (\<lambda>x. 0) evs u" if "in_range ps u" for u
  proof -
    from that have "nat u < length ps" "int (nat u) = u" by (auto simp: in_range_def)
    with tv(4,5) [of "nat u"] show ?thesis by simp
  qed
  with tr run tv(1,2,3) show ?thesis by blast
qed

lemma in_range_vertex_of_parents:
  assumes "in_range ps u"
  shows "u \<in> set (vertices (graph_of_parents ps k))"
proof -
  from assms have "nat u < length ps" "u = int (nat u)" by (auto simp: in_range_def)
  then show ?thesis by (metis atLeast0LessThan imageI lessThan_iff set_map set_upt
        vertices_of_parents)
qed

lemma contained_is_ancestor:
  assumes wf: "wf_parents ps"
    and tr: "traversal_protocol (graph_of_parents ps (length ps)) start evs cm'"
    and a: "in_range ps a" and u: "in_range ps u"
    and c: "stamps_in t f evs a \<le> stamps_in t f evs u" "stamps_out t h evs u \<le> stamps_out t h evs a"
  shows "(a, u) \<in> (parent_rel ps)\<^sup>*"
proof -
  let ?g = "graph_of_parents ps (length ps)"
  note wfg = wf_graph_of_parents [OF wf]
  note cov = traversal_covers(1) [OF wfg tr]
  have "a \<in> set (discovered evs)" "u \<in> set (discovered evs)"
    unfolding cov using a u by (simp_all add: in_range_vertex_of_parents del: vertices_of_parents)
  with traversal_good_run(1) [OF tr] c have "(a, u) \<in> (succs ?g)\<^sup>*"
    unfolding good_run_def by blast
  then show ?thesis by (simp add: succs_of_parents [OF wf])
qed



text \<open>
  C1, as the code has it. For every query \<open>(a, v)\<close> on a well-formed input the program
  writes \<open>1\<close> exactly when \<open>time_in[a] \<le> time_in[v]\<close> and \<open>time_out[v] \<le> time_out[a]\<close> (0-based),
  and a query \<open>(v, v)\<close> is answered \<open>1\<close>. When the input is a tree with a unique root, the
  condition holds if and only if \<open>a\<close> is an ancestor of \<open>v\<close> or \<open>v\<close> itself. The program
  returns whenever the stack holds \<open>V\<close> nested calls and \<open>2V\<close> fits an \<^verbatim>\<open>int\<close>.
\<close>

theorem ancestor_query_answers:
  assumes "wf_parents parents" "length parents \<le> depth" "2 * int (length parents) \<le> INT_MAX"
    and "list_all (\<lambda>(a, v). in_range parents (a - 1) \<and> in_range parents (v - 1)) queries"
  shows "\<exists>tv. timestamps depth parents = Inr tv \<and>
    main depth parents queries = Inr (concat (map (\<lambda>(a, v).
      if time_in tv ! nat (a - 1) \<le> time_in tv ! nat (v - 1) \<and>
         time_out tv ! nat (v - 1) \<le> time_out tv ! nat (a - 1)
      then ''1'' @ [CHR 0x0A] else ''0'' @ [CHR 0x0A]) queries)) \<and>
    (rooted_tree parents \<longrightarrow> (\<forall>a v. in_range parents a \<and> in_range parents v \<longrightarrow>
      (time_in tv ! nat a \<le> time_in tv ! nat v \<and> time_out tv ! nat v \<le> time_out tv ! nat a
        \<longleftrightarrow> ancestor_or_self parents a v))) \<and>
    (\<forall>v. in_range parents v \<longrightarrow> main depth parents [(v + 1, v + 1)] = Inr (''1'' @ [CHR 0x0A]))"
proof -
  let ?g = "graph_of_parents parents (length parents)"
  let ?r = "last_root (- 1) 0 parents"
  let ?line = "\<lambda>tv (a, v).
      if time_in tv ! nat (a - 1) \<le> time_in tv ! nat (v - 1) \<and>
         time_out tv ! nat (v - 1) \<le> time_out tv ! nat (a - 1)
      then ''1'' @ [CHR 0x0A] else ''0'' @ [CHR 0x0A]"
  from driver_run [OF assms(1,2,3)] obtain evs cm' tv where
    tr: "traversal_protocol ?g ?r evs cm'" and
    tv: "timestamps depth parents = Inr tv" and
    len: "length (time_in tv) = length parents" "length (time_out tv) = length parents" and
    st: "\<And>u. in_range parents u \<Longrightarrow> time_in tv ! nat u = stamps_in 0 (\<lambda>x. 0) evs u \<and>
       time_out tv ! nat u = stamps_out 0 (\<lambda>x. 0) evs u"
    by blast
  have rng: "in_range (time_in tv) x = in_range parents x" for x
    by (simp add: in_range_def len)
  have ans: "answer_query tv (a, v) = Inr (?line tv (a, v))"
    if "in_range parents (a - 1)" "in_range parents (v - 1)" for a v
    using answer_query_in_range [of tv a v] that len by (simp add: rng)
  have "\<forall>q \<in> set queries. answer_query tv q = Inr (?line tv q)"
    using assms(4) ans by (auto simp: list_all_iff)
  then have 1: "main depth parents queries = Inr (concat (map (?line tv) queries))"
    using tv by (intro main_output)
  have 2: "time_in tv ! nat a \<le> time_in tv ! nat v \<and> time_out tv ! nat v \<le> time_out tv ! nat a
        \<longleftrightarrow> ancestor_or_self parents a v"
    if tree: "rooted_tree parents" and a: "in_range parents a" and v: "in_range parents v" for a v
  proof
    assume "time_in tv ! nat a \<le> time_in tv ! nat v \<and> time_out tv ! nat v \<le> time_out tv ! nat a"
    then have "stamps_in 0 (\<lambda>x. 0) evs a \<le> stamps_in 0 (\<lambda>x. 0) evs v"
      "stamps_out 0 (\<lambda>x. 0) evs v \<le> stamps_out 0 (\<lambda>x. 0) evs a"
      using st [OF a] st [OF v] by simp_all
    from contained_is_ancestor [OF assms(1) tr a v this]
    show "ancestor_or_self parents a v" by (simp add: ancestor_or_self_def)
  next
    assume "ancestor_or_self parents a v"
    then have "(a, v) \<in> (parent_rel parents)\<^sup>*" by (simp add: ancestor_or_self_def)
    from tree_traversal(2) [OF tree tr a this, of 0 "\<lambda>x. 0" "\<lambda>x. 0"]
    show "time_in tv ! nat a \<le> time_in tv ! nat v \<and> time_out tv ! nat v \<le> time_out tv ! nat a"
      using st [OF a] st [OF v] by simp
  qed
  have 3: "main depth parents [(v + 1, v + 1)] = Inr (''1'' @ [CHR 0x0A])"
    if v: "in_range parents v" for v
  proof -
    have "\<forall>q \<in> set [(v + 1, v + 1)]. answer_query tv q = Inr (?line tv q)"
      using ans [of "v + 1" "v + 1"] v by simp
    from main_output [OF tv this] show ?thesis by simp
  qed
  from tv 1 2 3 show ?thesis by blast
qed

theorem ancestor_query_answers_witness:
  "wf_parents [0, 1, 1, 3] \<and> rooted_tree [0, 1, 1, 3] \<and>
   (\<exists>tv. timestamps 4 [0, 1, 1, 3] = Inr tv \<and>
      (time_in tv ! nat 0 \<le> time_in tv ! nat 3 \<and> time_out tv ! nat 3 \<le> time_out tv ! nat 0
        \<longleftrightarrow> ancestor_or_self [0, 1, 1, 3] 0 3) \<and>
      main 4 [0, 1, 1, 3] [(3 + 1, 3 + 1)] = Inr (''1'' @ [CHR 0x0A]))"
proof -
  have h1: "wf_parents [0, 1, 1, 3]" by code_simp
  have h2: "length [0, 1, 1, 3 :: int] \<le> 4" by simp
  have h3: "list_all (\<lambda>(a, v). in_range [0, 1, 1, 3] (a - 1) \<and> in_range [0, 1, 1, 3] (v - 1))
      [(1, 4), (2, 4)]"
    by (simp add: in_range_def)
  have h4: "rooted_tree [0, 1, 1, 3]" by code_simp
  have h5: "in_range [0, 1, 1, 3 :: int] 0" "in_range [0, 1, 1, 3 :: int] 3"
    by (simp_all add: in_range_def)
  have h6: "2 * int (length [0, 1, 1, 3 :: int]) \<le> INT_MAX" by (simp add: INT_MAX_def)
  from ancestor_query_answers [OF h1 h2 h6 h3] obtain tv where
    "timestamps 4 [0, 1, 1, 3] = Inr tv"
    "rooted_tree [0, 1, 1, 3] \<longrightarrow>
      (\<forall>a v. in_range [0, 1, 1, 3 :: int] a \<and> in_range [0, 1, 1, 3 :: int] v \<longrightarrow>
      (time_in tv ! nat a \<le> time_in tv ! nat v \<and> time_out tv ! nat v \<le> time_out tv ! nat a
        \<longleftrightarrow> ancestor_or_self [0, 1, 1, 3] a v))"
    "\<forall>v. in_range [0, 1, 1, 3 :: int] v \<longrightarrow>
      main 4 [0, 1, 1, 3] [(v + 1, v + 1)] = Inr (''1'' @ [CHR 0x0A])"
    by blast
  with h1 h4 h5 show ?thesis by blast
qed

theorem ancestor_query_forest_counterexample:
  "wf_parents [2, 0, 0] \<and> acyclic_parents [2, 0, 0] \<and>
   ancestor_or_self [2, 0, 0] 1 0 \<and>
   timestamps 3 [2, 0, 0] = Inr \<lparr>timer = 6, time_in = [2, 4, 0], time_out = [3, 5, 1]\<rparr> \<and>
   main 3 [2, 0, 0] [(2, 1)] = Inr (''0'' @ [CHR 0x0A])"
proof -
  have "wf_parents [2, 0, 0]" by code_simp
  moreover have "acyclic_parents [2, 0, 0]" by code_simp
  moreover have "(1, 0) \<in> parent_rel [2, 0, 0]" by (simp add: parent_rel_def in_range_def)
  then have "ancestor_or_self [2, 0, 0] 1 0" unfolding ancestor_or_self_def by (rule r_into_rtrancl)
  moreover have "timestamps 3 [2, 0, 0]
      = Inr \<lparr>timer = 6, time_in = [2, 4, 0], time_out = [3, 5, 1]\<rparr>"
    by code_simp
  moreover have "main 3 [2, 0, 0] [(2, 1)] = Inr (''0'' @ [CHR 0x0A])" by code_simp
  ultimately show ?thesis by blast
qed

text \<open>
  C2, as the code has it. When the input is a tree with a unique root, the query
  \<open>(p, v)\<close> for a vertex \<open>v\<close> and its parent \<open>p\<close> is answered \<open>1\<close>. On every well-formed
  input, forests included, a query \<open>(a, v)\<close> where \<open>a\<close> is neither an ancestor of \<open>v\<close> nor
  \<open>v\<close> itself is answered \<open>0\<close>. (The stack holds \<open>V\<close> nested calls and \<open>2V\<close> fits an \<^verbatim>\<open>int\<close>.)
\<close>

theorem parent_and_non_ancestor_queries:
  assumes "wf_parents parents" "length parents \<le> depth" "2 * int (length parents) \<le> INT_MAX"
  shows "(rooted_tree parents \<longrightarrow> (\<forall>p v. (p, v) \<in> parent_rel parents \<longrightarrow>
        main depth parents [(p + 1, v + 1)] = Inr (''1'' @ [CHR 0x0A]))) \<and>
    (\<forall>a v. in_range parents a \<and> in_range parents v \<and> \<not> ancestor_or_self parents a v \<longrightarrow>
        main depth parents [(a + 1, v + 1)] = Inr (''0'' @ [CHR 0x0A]))"
proof -
  let ?g = "graph_of_parents parents (length parents)"
  let ?r = "last_root (- 1) 0 parents"
  let ?line = "\<lambda>tv (a, v).
      if time_in tv ! nat (a - 1) \<le> time_in tv ! nat (v - 1) \<and>
         time_out tv ! nat (v - 1) \<le> time_out tv ! nat (a - 1)
      then ''1'' @ [CHR 0x0A] else ''0'' @ [CHR 0x0A]"
  from driver_run [OF assms(1,2,3)] obtain evs cm' tv where
    tr: "traversal_protocol ?g ?r evs cm'" and
    tv: "timestamps depth parents = Inr tv" and
    len: "length (time_in tv) = length parents" "length (time_out tv) = length parents" and
    st: "\<And>u. in_range parents u \<Longrightarrow> time_in tv ! nat u = stamps_in 0 (\<lambda>x. 0) evs u \<and>
       time_out tv ! nat u = stamps_out 0 (\<lambda>x. 0) evs u"
    by blast
  have rng: "in_range (time_in tv) x = in_range parents x" for x
    by (simp add: in_range_def len)
  have out: "main depth parents [(a + 1, v + 1)] = Inr (?line tv (a + 1, v + 1))"
    if "in_range parents a" "in_range parents v" for a v
  proof -
    have "\<forall>q \<in> set [(a + 1, v + 1)]. answer_query tv q = Inr (?line tv q)"
      using answer_query_in_range [of tv "a + 1" "v + 1"] that len by (simp add: rng)
    from main_output [OF tv this] show ?thesis by simp
  qed
  have 1: "main depth parents [(p + 1, v + 1)] = Inr (''1'' @ [CHR 0x0A])"
    if tree: "rooted_tree parents" and pv: "(p, v) \<in> parent_rel parents" for p v
  proof -
    from pv have v: "in_range parents v" and p0: "0 \<le> p" and pp: "parents ! nat v = p + 1"
      by (auto simp: parent_rel_def)
    from v have "nat v < length parents" by (auto simp: in_range_def)
    from wf_parentsD [OF assms(1) this] pp p0 have p: "in_range parents p"
      by (simp add: in_range_def)
    from pv have "(p, v) \<in> (parent_rel parents)\<^sup>*" by (rule r_into_rtrancl)
    from tree_traversal(2) [OF tree tr p this, of 0 "\<lambda>x. 0" "\<lambda>x. 0"]
    have "time_in tv ! nat p \<le> time_in tv ! nat v \<and> time_out tv ! nat v \<le> time_out tv ! nat p"
      using st [OF p] st [OF v] by simp
    with out [OF p v] show ?thesis by simp
  qed
  have 2: "main depth parents [(a + 1, v + 1)] = Inr (''0'' @ [CHR 0x0A])"
    if a: "in_range parents a" and v: "in_range parents v"
      and n: "\<not> ancestor_or_self parents a v" for a v
  proof -
    have "\<not> (time_in tv ! nat a \<le> time_in tv ! nat v \<and>
        time_out tv ! nat v \<le> time_out tv ! nat a)"
    proof
      assume "time_in tv ! nat a \<le> time_in tv ! nat v \<and> time_out tv ! nat v \<le> time_out tv ! nat a"
      then have "stamps_in 0 (\<lambda>x. 0) evs a \<le> stamps_in 0 (\<lambda>x. 0) evs v"
        "stamps_out 0 (\<lambda>x. 0) evs v \<le> stamps_out 0 (\<lambda>x. 0) evs a"
        using st [OF a] st [OF v] by simp_all
      from contained_is_ancestor [OF assms(1) tr a v this] n
      show False by (simp add: ancestor_or_self_def)
    qed
    with out [OF a v] show ?thesis by auto
  qed
  from 1 2 show ?thesis by blast
qed

theorem parent_and_non_ancestor_queries_witness:
  "wf_parents [0, 1, 1, 3] \<and> rooted_tree [0, 1, 1, 3] \<and> (2, 3) \<in> parent_rel [0, 1, 1, 3] \<and>
   main 4 [0, 1, 1, 3] [(2 + 1, 3 + 1)] = Inr (''1'' @ [CHR 0x0A])"
proof -
  have h1: "wf_parents [0, 1, 1, 3]" by code_simp
  have h2: "length [0, 1, 1, 3 :: int] \<le> 4" by simp
  have h3: "rooted_tree [0, 1, 1, 3]" by code_simp
  have h4: "(2, 3) \<in> parent_rel [0, 1, 1, 3]" by (simp add: parent_rel_def in_range_def)
  have h5: "2 * int (length [0, 1, 1, 3 :: int]) \<le> INT_MAX" by (simp add: INT_MAX_def)
  from parent_and_non_ancestor_queries [OF h1 h2 h5] h1 h3 h4 show ?thesis by blast
qed

theorem parent_query_forest_counterexample:
  "wf_parents [2, 0, 2, 0] \<and> acyclic_parents [2, 0, 2, 0] \<and>
   (1, 0) \<in> parent_rel [2, 0, 2, 0] \<and>
   main 4 [2, 0, 2, 0] [(2, 1)] = Inr (''0'' @ [CHR 0x0A])"
proof -
  have "wf_parents [2, 0, 2, 0]" by code_simp
  moreover have "acyclic_parents [2, 0, 2, 0]" by code_simp
  moreover have "(1, 0) \<in> parent_rel [2, 0, 2, 0]" by (simp add: parent_rel_def in_range_def)
  moreover have "main 4 [2, 0, 2, 0] [(2, 1)] = Inr (''0'' @ [CHR 0x0A])" by code_simp
  ultimately show ?thesis by blast
qed

end
